theory Spec2Isabelle
  imports Complex_Main "HOL-Library.AList" "HOL-Library.Multiset"
begin

section \<open>Wordle/Fibble game state and solver (classes/GameState.py)\<close>

text \<open>
  Strings are lists of 8-bit characters; the vocabulary, the openers and every reply that
  passes \<open>_extract_word\<close>'s regular expression are ASCII, and on ASCII Python's
  \<open>str.lower\<close>, \<open>str.upper\<close> and \<open>str.isalpha\<close> are the functions below.
  A Python exception is a value \<open>Inl e\<close> of the result.
\<close>

subsection \<open>Feedback, LetterCell, Word\<close>

datatype Feedback = correct | present | incorrect

datatype Status = playing | end_status

datatype error = IndexError | KeyError

definition is_upper :: "char \<Rightarrow> bool" where
  "is_upper c = (65 \<le> (of_char c :: nat) \<and> (of_char c :: nat) \<le> 90)"

definition is_lower :: "char \<Rightarrow> bool" where
  "is_lower c = (97 \<le> (of_char c :: nat) \<and> (of_char c :: nat) \<le> 122)"

definition isalpha_char :: "char \<Rightarrow> bool" where
  "isalpha_char c = (is_upper c \<or> is_lower c)"

definition lower_char :: "char \<Rightarrow> char" where
  "lower_char c = (if is_upper c then char_of ((of_char c :: nat) + 32) else c)"

definition upper_char :: "char \<Rightarrow> char" where
  "upper_char c = (if is_lower c then char_of ((of_char c :: nat) - 32) else c)"

definition lower :: "string \<Rightarrow> string" where
  "lower s = map lower_char s"

definition upper :: "string \<Rightarrow> string" where
  "upper s = map upper_char s"

text \<open>\<open>str.isalpha\<close>: false on the empty string.\<close>

definition isalpha :: "string \<Rightarrow> bool" where
  "isalpha s = (s \<noteq> [] \<and> list_all isalpha_char s)"

record LetterCell =
  letter :: string
  feedback :: Feedback

definition new_LetterCell :: LetterCell where
  "new_LetterCell = \<lparr>letter = [], feedback = incorrect\<rparr>"

record Word =
  cells :: "LetterCell list"
  word :: string

definition new_Word :: Word where
  "new_Word = \<lparr>cells = replicate 5 new_LetterCell, word = []\<rparr>"

text \<open>\<open>Word.set_word\<close>: the loop runs over \<open>word[:5]\<close>, so no index leaves the five cells.\<close>

definition set_word :: "Word \<Rightarrow> string \<Rightarrow> Word" where
  "set_word w s =
     w\<lparr>word := lower s,
       cells := fold (\<lambda>(i, c) cs. cs[i := (cs ! i)\<lparr>letter := upper [c]\<rparr>])
                     (zip [0..<length (take 5 s)] (take 5 s)) (cells w)\<rparr>"

text \<open>\<open>Word.set_feedback\<close>: \<open>self.cells[i]\<close> raises IndexError past the last cell.\<close>

fun set_cells_feedback :: "LetterCell list \<Rightarrow> nat \<Rightarrow> Feedback list \<Rightarrow> error + LetterCell list" where
  "set_cells_feedback cs i [] = Inr cs"
| "set_cells_feedback cs i (fb # fbs) =
     (if i < length cs then set_cells_feedback (cs[i := (cs ! i)\<lparr>feedback := fb\<rparr>]) (Suc i) fbs
      else Inl IndexError)"

definition set_feedback :: "Word \<Rightarrow> Feedback list \<Rightarrow> error + Word" where
  "set_feedback w fbs =
     (case set_cells_feedback (cells w) 0 fbs of
        Inl e \<Rightarrow> Inl e
      | Inr cs \<Rightarrow> Inr (w\<lparr>cells := cs\<rparr>))"

definition get_feedback :: "Word \<Rightarrow> Feedback list" where
  "get_feedback w = map feedback (cells w)"

subsection \<open>Scoring a guess: the two passes of \<open>_calculate_feedback\<close>\<close>

text \<open>\<open>list.index\<close>: position of the first occurrence (only called on a member).\<close>

fun index_of :: "'a list \<Rightarrow> 'a \<Rightarrow> nat" where
  "index_of [] x = 0"
| "index_of (y # ys) x = (if y = x then 0 else Suc (index_of ys x))"

text \<open>
  First pass (greens), over the positions still to visit. \<open>guess[i]\<close> and \<open>target[i]\<close>
  raise IndexError on a string shorter than five.
\<close>

fun first_pass :: "string \<Rightarrow> string \<Rightarrow> nat list \<Rightarrow> Feedback list \<times> char option list
    \<Rightarrow> error + (Feedback list \<times> char option list)" where
  "first_pass guess target [] st = Inr st"
| "first_pass guess target (i # is) (fb, target_letters) =
     (if length guess \<le> i \<or> length target \<le> i then Inl IndexError
      else if guess ! i = target ! i
        then first_pass guess target is (fb[i := correct], target_letters[i := None])
        else first_pass guess target is (fb, target_letters))"

text \<open>Second pass (yellows): a letter is credited only while an unconsumed copy remains.\<close>

fun second_pass :: "string \<Rightarrow> nat list \<Rightarrow> Feedback list \<times> char option list
    \<Rightarrow> error + (Feedback list \<times> char option list)" where
  "second_pass guess [] st = Inr st"
| "second_pass guess (i # is) (fb, target_letters) =
     (if fb ! i = incorrect then
        (if length guess \<le> i then Inl IndexError
         else if Some (guess ! i) \<in> set target_letters
           then second_pass guess is
                  (fb[i := present],
                   target_letters[index_of target_letters (Some (guess ! i)) := None])
           else second_pass guess is (fb, target_letters))
      else second_pass guess is (fb, target_letters))"

text \<open>Lines 636-653: the truthful feedback of a guess against a target.\<close>

definition truthful_feedback :: "string \<Rightarrow> string \<Rightarrow> error + Feedback list" where
  "truthful_feedback guess0 target0 =
     (let guess = lower guess0; target = lower target0 in
      case first_pass guess target [0..<5] (replicate 5 incorrect, map Some target) of
        Inl e \<Rightarrow> Inl e
      | Inr st1 \<Rightarrow>
          (case second_pass guess [0..<5] st1 of
             Inl e \<Rightarrow> Inl e
           | Inr (fb, target_letters) \<Rightarrow> Inr fb))"

subsection \<open>Constraints\<close>

text \<open>
  A dict is an association list in insertion order (\<open>AList.update\<close> overwrites in place or
  appends, as Python does). \<open>excluded_pos\<close> is created with the keys \<open>0..4\<close> and never
  gains or loses a key: it is the list of its values, and a key past its end is a KeyError.
  Counts are natural numbers; \<open>ignore_column\<close> is an integer (default \<open>-1\<close>).
\<close>

record Constraints =
  correct_pos :: "(nat \<times> char) list"
  excluded_pos :: "char set list"
  min_count :: "(char \<times> nat) list"
  max_count :: "(char \<times> nat) list"

definition new_Constraints :: Constraints where
  "new_Constraints =
     \<lparr>correct_pos = [], excluded_pos = replicate 5 {}, min_count = [], max_count = []\<rparr>"

text \<open>\<open>d.get(k, default)\<close>\<close>

definition dict_get :: "('k \<times> 'v) list \<Rightarrow> 'k \<Rightarrow> 'v \<Rightarrow> 'v" where
  "dict_get d k dflt = (case map_of d k of None \<Rightarrow> dflt | Some v \<Rightarrow> v)"

text \<open>\<open>enumerate(zip(word, feedback))\<close>\<close>

definition enum_zip :: "string \<Rightarrow> Feedback list \<Rightarrow> (nat \<times> char \<times> Feedback) list" where
  "enum_zip w fbs = zip [0..<length (zip w fbs)] (zip w fbs)"

text \<open>Lines 56-66: pins, per-position exclusions and the per-guess tally \<open>confirmed\<close>.\<close>

fun update_marks :: "int \<Rightarrow> (nat \<times> char \<times> Feedback) list
    \<Rightarrow> Constraints \<times> (char \<times> nat) list \<Rightarrow> error + (Constraints \<times> (char \<times> nat) list)" where
  "update_marks ignore_column [] st = Inr st"
| "update_marks ignore_column ((i, l, fb) # rest) (c, confirmed) =
     (if int i = ignore_column then update_marks ignore_column rest (c, confirmed)
      else if fb = correct then
        update_marks ignore_column rest
          (c\<lparr>correct_pos := AList.update i l (correct_pos c)\<rparr>,
           AList.update l (dict_get confirmed l 0 + 1) confirmed)
      else if fb = present then
        (if i < length (excluded_pos c) then
           update_marks ignore_column rest
             (c\<lparr>excluded_pos := (excluded_pos c)[i := insert l (excluded_pos c ! i)]\<rparr>,
              AList.update l (dict_get confirmed l 0 + 1) confirmed)
         else Inl KeyError)
      else update_marks ignore_column rest (c, confirmed))"

text \<open>Lines 68-69.\<close>

fun update_min :: "(char \<times> nat) list \<Rightarrow> Constraints \<Rightarrow> Constraints" where
  "update_min [] c = c"
| "update_min ((l, n) # rest) c =
     update_min rest (c\<lparr>min_count := AList.update l (max (dict_get (min_count c) l 0) n) (min_count c)\<rparr>)"

text \<open>Lines 79-81: \<open>for j in range(5): if j != ignore_column: excluded_pos[j].add(letter)\<close>.\<close>

fun exclude_all :: "int \<Rightarrow> char \<Rightarrow> nat list \<Rightarrow> Constraints \<Rightarrow> error + Constraints" where
  "exclude_all ignore_column l [] c = Inr c"
| "exclude_all ignore_column l (j # js) c =
     (if int j \<noteq> ignore_column then
        (if j < length (excluded_pos c) then
           exclude_all ignore_column l js
             (c\<lparr>excluded_pos := (excluded_pos c)[j := insert l (excluded_pos c ! j)]\<rparr>)
         else Inl KeyError)
      else exclude_all ignore_column l js c)"

text \<open>Lines 71-81.\<close>

fun update_incorrect :: "int \<Rightarrow> (char \<times> nat) list \<Rightarrow> (nat \<times> char \<times> Feedback) list
    \<Rightarrow> Constraints \<Rightarrow> error + Constraints" where
  "update_incorrect ignore_column confirmed [] c = Inr c"
| "update_incorrect ignore_column confirmed ((i, l, fb) # rest) c =
     (if int i = ignore_column then update_incorrect ignore_column confirmed rest c
      else if fb = incorrect then
        (let c1 = c\<lparr>max_count := AList.update l (dict_get confirmed l 0) (max_count c)\<rparr> in
         if dict_get confirmed l 0 = 0 then
           (case exclude_all ignore_column l [0..<5] c1 of
              Inl e \<Rightarrow> Inl e
            | Inr c2 \<Rightarrow> update_incorrect ignore_column confirmed rest c2)
         else update_incorrect ignore_column confirmed rest c1)
      else update_incorrect ignore_column confirmed rest c)"

text \<open>
  \<open>Constraints.update(word, feedback, ignore_column)\<close>. The Python object is mutated in
  place; when a KeyError escapes, the model returns the error without the half-updated
  object.
\<close>

definition update :: "Constraints \<Rightarrow> string \<Rightarrow> Feedback list \<Rightarrow> int \<Rightarrow> error + Constraints" where
  "update c word0 fbs ignore_column =
     (let w = lower word0 in
      case update_marks ignore_column (enum_zip w fbs) (c, []) of
        Inl e \<Rightarrow> Inl e
      | Inr (c1, confirmed) \<Rightarrow>
          update_incorrect ignore_column confirmed (enum_zip w fbs) (update_min confirmed c1))"

text \<open>Lines 87-89: \<open>word[pos]\<close> raises IndexError past the end of the word.\<close>

fun check_correct :: "(nat \<times> char) list \<Rightarrow> string \<Rightarrow> error + bool" where
  "check_correct [] w = Inr True"
| "check_correct ((pos, l) # rest) w =
     (if length w \<le> pos then Inl IndexError
      else if w ! pos \<noteq> l then Inr False
      else check_correct rest w)"

text \<open>Lines 91-93, over \<open>excluded_pos.items()\<close>.\<close>

fun check_excluded :: "(nat \<times> char set) list \<Rightarrow> string \<Rightarrow> error + bool" where
  "check_excluded [] w = Inr True"
| "check_excluded ((pos, excluded) # rest) w =
     (if length w \<le> pos then Inl IndexError
      else if w ! pos \<in> excluded then Inr False
      else check_excluded rest w)"

text \<open>Lines 95-97.\<close>

definition letter_counts :: "string \<Rightarrow> (char \<times> nat) list" where
  "letter_counts w = fold (\<lambda>c counts. AList.update c (dict_get counts c 0 + 1) counts) w []"

text \<open>\<open>Constraints.matches(word)\<close>\<close>

definition matches :: "Constraints \<Rightarrow> string \<Rightarrow> error + bool" where
  "matches c word0 =
     (let w = lower word0 in
      case check_correct (correct_pos c) w of
        Inl e \<Rightarrow> Inl e
      | Inr False \<Rightarrow> Inr False
      | Inr True \<Rightarrow>
          (case check_excluded (zip [0..<length (excluded_pos c)] (excluded_pos c)) w of
             Inl e \<Rightarrow> Inl e
           | Inr False \<Rightarrow> Inr False
           | Inr True \<Rightarrow>
               (let counts = letter_counts w in
                if list_ex (\<lambda>(l, min_c). dict_get counts l 0 < min_c) (min_count c) then Inr False
                else if list_ex (\<lambda>(l, max_c). max_c < dict_get counts l 0) (max_count c) then Inr False
                else Inr True)))"

subsection \<open>GameState: reset, feedback with the Fibble lie, enter_word\<close>

text \<open>
  The instance fields and the class-level solver state of \<open>GameState\<close> in one record
  (\<open>show_window\<close> and \<open>logging\<close> only steer printing and are left out). The vocabulary
  \<open>WORDS\<close> is a Python set of 2265 words, each five lowercase letters, iterated in an
  order the language does not fix: the functions below take it as a list \<open>vocab\<close>.
\<close>

record GameState =
  num_lies :: int
  num_guesses :: int
  words :: "Word list"
  current_word_index :: nat
  target_word :: string
  status :: Status
  success :: bool
  was_valid_guess :: bool
  lie_column :: "nat option"
  lies_given :: int
  solver_constraints :: Constraints
  candidates :: "string list"
  guess_num :: nat
  history :: "(string \<times> Feedback list) list"

text \<open>
  \<open>reset\<close>: \<open>tgt\<close> is what \<open>random.choice(self.word_list)\<close> returns and \<open>col\<close> what
  \<open>random.randint(0, 4)\<close> returns.
\<close>

definition reset :: "string list \<Rightarrow> string \<Rightarrow> nat \<Rightarrow> GameState \<Rightarrow> GameState" where
  "reset vocab tgt col s =
     s\<lparr>words := [], current_word_index := 0, target_word := tgt, status := playing,
       success := False, was_valid_guess := False,
       lie_column := (if num_lies s > 0 then Some col else None), lies_given := 0,
       solver_constraints := new_Constraints, candidates := vocab, guess_num := 0,
       history := []\<rparr>"

text \<open>\<open>__init__\<close> followed by its call of \<open>reset\<close>.\<close>

definition init :: "string list \<Rightarrow> string \<Rightarrow> nat \<Rightarrow> GameState" where
  "init vocab tgt col =
     reset vocab tgt col
       \<lparr>num_lies = 0, num_guesses = 6, words = [], current_word_index = 0, target_word = [],
        status = playing, success = False, was_valid_guess = False, lie_column = None,
        lies_given = 0, solver_constraints = new_Constraints, candidates = [], guess_num = 0,
        history = []\<rparr>"

definition flip :: "Feedback \<Rightarrow> Feedback" where
  "flip fb = (if fb = correct then incorrect else if fb = present then incorrect else present)"

text \<open>\<open>_apply_lie\<close>\<close>

definition apply_lie :: "GameState \<Rightarrow> Feedback list \<Rightarrow> error + (Feedback list \<times> GameState)" where
  "apply_lie s fbs =
     (case lie_column s of
        None \<Rightarrow> Inr (fbs, s)
      | Some col \<Rightarrow>
          if lies_given s < num_lies s then
            (if length fbs \<le> col then Inl IndexError
             else Inr (fbs[col := flip (fbs ! col)], s\<lparr>lies_given := lies_given s + 1\<rparr>))
          else Inr (fbs, s))"

text \<open>\<open>_calculate_feedback\<close>: the two passes, then the lie while the budget lasts.\<close>

definition calculate_feedback :: "GameState \<Rightarrow> string \<Rightarrow> error + (Feedback list \<times> GameState)" where
  "calculate_feedback s guess =
     (case truthful_feedback guess (target_word s) of
        Inl e \<Rightarrow> Inl e
      | Inr fbs \<Rightarrow>
          if num_lies s > 0 \<and> lies_given s < num_lies s then apply_lie s fbs
          else Inr (fbs, s))"

text \<open>\<open>enter_word\<close>\<close>

definition enter_word :: "GameState \<Rightarrow> string \<Rightarrow> error + GameState" where
  "enter_word s guess0 =
     (let guess = lower guess0; w = set_word new_Word guess in
      case calculate_feedback s guess of
        Inl e \<Rightarrow> Inl e
      | Inr (fbs, s1) \<Rightarrow>
          (case set_feedback w fbs of
             Inl e \<Rightarrow> Inl e
           | Inr w' \<Rightarrow>
               (let s2 = s1\<lparr>words := words s1 @ [w'],
                             current_word_index := length (words s1 @ [w'])\<rparr> in
                Inr (if guess = target_word s2 then s2\<lparr>success := True, status := end_status\<rparr>
                     else if num_guesses s2 \<le> int (length (words s2))
                       then s2\<lparr>success := False, status := end_status\<rparr>
                     else s2))))"

definition num_of_tries :: "GameState \<Rightarrow> nat" where
  "num_of_tries s = length (words s)"

subsection \<open>Measures used in the statements\<close>

text \<open>How many copies of letter \<open>l\<close> in the guess carry a correct or present tag.\<close>

definition credited :: "string \<Rightarrow> Feedback list \<Rightarrow> char \<Rightarrow> nat" where
  "credited g fbs l = length (filter (\<lambda>(c, f). c = l \<and> f \<noteq> incorrect) (zip g fbs))"

text \<open>How many unconsumed copies of letter \<open>l\<close> are left in \<open>target_letters\<close>.\<close>

definition avail :: "char option list \<Rightarrow> char \<Rightarrow> nat" where
  "avail target_letters l = count (mset target_letters) (Some l)"

text \<open>
  The tally \<open>confirmed[l]\<close> of one call of \<open>update\<close>: the correct and present marks of
  letter \<open>l\<close> outside the ignored column.
\<close>

definition confirmed_count :: "int \<Rightarrow> (nat \<times> char \<times> Feedback) list \<Rightarrow> char \<Rightarrow> nat" where
  "confirmed_count ignore_column marks l =
     length (filter (\<lambda>(i, c, f). int i \<noteq> ignore_column \<and> c = l \<and> f \<noteq> incorrect) marks)"

subsection \<open>Histories\<close>

text \<open>
  \<open>for hist_word, hist_fb in history: constraints.update(hist_word, hist_fb, ignore_column)\<close>:
  the updates of a history applied in order to one model (the first KeyError ends the loop).
\<close>

fun apply_history :: "int \<Rightarrow> (string \<times> Feedback list) list \<Rightarrow> Constraints \<Rightarrow> error + Constraints" where
  "apply_history ignore_column [] c = Inr c"
| "apply_history ignore_column ((w, fbs) # rest) c =
     (case update c w fbs ignore_column of
        Inl e \<Rightarrow> Inl e
      | Inr c' \<Rightarrow> apply_history ignore_column rest c')"

text \<open>The truthful history of a list of guesses against one target.\<close>

fun truthful_history :: "string \<Rightarrow> string list \<Rightarrow> error + (string \<times> Feedback list) list" where
  "truthful_history target [] = Inr []"
| "truthful_history target (g # gs) =
     (case truthful_feedback g target of
        Inl e \<Rightarrow> Inl e
      | Inr fbs \<Rightarrow>
          (case truthful_history target gs of
             Inl e \<Rightarrow> Inl e
           | Inr h \<Rightarrow> Inr ((g, fbs) # h)))"

text \<open>A model all of whose constraints hold of the (lowercase) word \<open>t\<close>.\<close>

definition sound :: "string \<Rightarrow> Constraints \<Rightarrow> bool" where
  "sound t c \<longleftrightarrow>
     length (excluded_pos c) = 5 \<and>
     (\<forall>(p, l) \<in> set (correct_pos c). p < 5 \<and> t ! p = l) \<and>
     (\<forall>j < 5. t ! j \<notin> excluded_pos c ! j) \<and>
     (\<forall>(l, m) \<in> set (min_count c). m \<le> count_list t l) \<and>
     (\<forall>(l, m) \<in> set (max_count c). count_list t l \<le> m)"

subsection \<open>Sequences of guesses\<close>

text \<open>A sequence of calls of \<open>enter_word\<close>, whatever the status; the first exception ends it.\<close>

fun enter_words :: "GameState \<Rightarrow> string list \<Rightarrow> error + GameState" where
  "enter_words s [] = Inr s"
| "enter_words s (g # gs) =
     (case enter_word s g of Inl e \<Rightarrow> Inl e | Inr s' \<Rightarrow> enter_words s' gs)"

text \<open>
  The same calls made the way the driver of benchmark.py makes its own
  (\<open>while game.status != Status.end\<close>): no guess is entered once the game has ended.
\<close>

fun play :: "GameState \<Rightarrow> string list \<Rightarrow> error + GameState" where
  "play s [] = Inr s"
| "play s (g # gs) =
     (if status s = end_status then Inr s
      else case enter_word s g of Inl e \<Rightarrow> Inl e | Inr s' \<Rightarrow> play s' gs)"

text \<open>Whether \<open>_calculate_feedback\<close> lies on the next guess.\<close>

definition lies_next :: "GameState \<Rightarrow> bool" where
  "lies_next s \<longleftrightarrow> 0 < num_lies s \<and> lies_given s < num_lies s \<and> lie_column s \<noteq> None"

subsection \<open>The solver turn: \<open>enter_word_from_ai\<close>\<close>

definition STARTERS :: "string list" where
  "STARTERS = [''salet'', ''reast'', ''crate'', ''trace'', ''slate'', ''crane'', ''slant'']"

definition MAX_LLM_CONTINUOUS_CALLS :: nat where
  "MAX_LLM_CONTINUOUS_CALLS = 5"

text \<open>\<open>str.strip()\<close> on ASCII: the characters \<open>str.isspace\<close> accepts.\<close>

definition is_space :: "char \<Rightarrow> bool" where
  "is_space c = ((of_char c :: nat) \<in> {9, 10, 11, 12, 13, 28, 29, 30, 31, 32})"

definition strip :: "string \<Rightarrow> string" where
  "strip s = rev (dropWhile is_space (rev (dropWhile is_space s)))"

text \<open>A word character of the regular expression (\<open>\w\<close>): letter, digit or underscore.\<close>

definition is_word_char :: "char \<Rightarrow> bool" where
  "is_word_char c =
     (isalpha_char c \<or> (48 \<le> (of_char c :: nat) \<and> (of_char c :: nat) \<le> 57) \<or> (of_char c :: nat) = 95)"

text \<open>The maximal runs of word characters of a text, in order; \<open>cur\<close> is the run being read.\<close>

fun word_runs :: "string \<Rightarrow> string \<Rightarrow> string list" where
  "word_runs [] cur = (if cur = [] then [] else [cur])"
| "word_runs (c # cs) cur =
     (if is_word_char c then word_runs cs (cur @ [c])
      else (if cur = [] then [] else [cur]) @ word_runs cs [])"

text \<open>
  \<open>re.findall(r'\b[a-zA-Z]{5}\b', text)\<close>: a match starts and ends at a word boundary, so
  it is a maximal run of word characters that consists of exactly five letters.
\<close>

definition findall_5_letters :: "string \<Rightarrow> string list" where
  "findall_5_letters text =
     filter (\<lambda>w. length w = 5 \<and> list_all isalpha_char w) (word_runs text [])"

text \<open>\<open>_extract_word\<close>\<close>

definition extract_word :: "string list \<Rightarrow> string \<Rightarrow> string option" where
  "extract_word vocab text0 =
     (if text0 = [] then None
      else let text = lower (strip text0) in
        if length text = 5 \<and> isalpha text then Some text
        else let ws = findall_5_letters text in
          (case find (\<lambda>w. lower w \<in> set vocab) ws of
             Some w \<Rightarrow> Some (lower w)
           | None \<Rightarrow> (case ws of [] \<Rightarrow> None | w # _ \<Rightarrow> Some (lower w))))"

text \<open>
  \<open>sorted(xs, key=score, reverse=True)\<close>: descending and stable. \<open>_score_word\<close> computes
  in floating point; the score is a parameter of the turn, any real-valued function.
\<close>

definition sorted_desc :: "(string \<Rightarrow> real) \<Rightarrow> string list \<Rightarrow> string list" where
  "sorted_desc score xs = rev (sort_key score (rev xs))"

text \<open>\<open>{w.word.lower() for w in self.words}\<close>\<close>

definition guessed_words :: "GameState \<Rightarrow> string list" where
  "guessed_words s = map (\<lambda>w. lower (word w)) (words s)"

text \<open>
  \<open>[w for w in ws if constraints.matches(w) and w not in guessed]\<close>; \<open>matches\<close> is called on
  every word and its exception ends the comprehension.
\<close>

fun filter_matching :: "Constraints \<Rightarrow> string list \<Rightarrow> string list \<Rightarrow> error + string list" where
  "filter_matching c guessed [] = Inr []"
| "filter_matching c guessed (w # ws) =
     (case matches c w of
        Inl e \<Rightarrow> Inl e
      | Inr b \<Rightarrow>
          (case filter_matching c guessed ws of
             Inl e \<Rightarrow> Inl e
           | Inr r \<Rightarrow> Inr (if b \<and> w \<notin> set guessed then w # r else r)))"

text \<open>
  Lines 693-708: the previous guess is taken into the model unless the last history entry
  has its word.
\<close>

definition ingest_prev :: "GameState \<Rightarrow> error + GameState" where
  "ingest_prev s =
     (if words s = [] then Inr s
      else let prev = last (words s); w = lower (word prev); fbs = get_feedback prev in
        if history s = [] \<or> fst (last (history s)) \<noteq> w then
          (if fbs \<noteq> [] \<and> length fbs = 5 then
             (case (if 0 < num_lies s then update (solver_constraints s) w fbs (- 1)
                    else update (solver_constraints s) w fbs (- 1)) of
                Inl e \<Rightarrow> Inl e
              | Inr c \<Rightarrow> Inr (s\<lparr>solver_constraints := c, history := history s @ [(w, fbs)]\<rparr>))
           else Inr s)
        else Inr s)"

text \<open>Lines 711-713.\<close>

definition filter_candidates :: "GameState \<Rightarrow> error + GameState" where
  "filter_candidates s =
     (case filter_matching (solver_constraints s) (guessed_words s) (candidates s) of
        Inl e \<Rightarrow> Inl e
      | Inr cs \<Rightarrow> Inr (s\<lparr>candidates := cs\<rparr>))"

text \<open>
  Lines 718-731: the columns still to try, left to right; the first one whose model leaves
  a candidate is returned with that model and those candidates.
\<close>

fun try_lie_columns :: "string list \<Rightarrow> (string \<times> Feedback list) list \<Rightarrow> string list \<Rightarrow> nat list
    \<Rightarrow> error + (Constraints \<times> string list) option" where
  "try_lie_columns vocab hist guessed [] = Inr None"
| "try_lie_columns vocab hist guessed (lie_col # cols) =
     (case apply_history (int lie_col) hist new_Constraints of
        Inl e \<Rightarrow> Inl e
      | Inr test_constraints \<Rightarrow>
          (case filter_matching test_constraints guessed vocab of
             Inl e \<Rightarrow> Inl e
           | Inr test_candidates \<Rightarrow>
               if test_candidates \<noteq> [] then Inr (Some (test_constraints, test_candidates))
               else try_lie_columns vocab hist guessed cols))"

text \<open>Lines 716-731.\<close>

definition recover_lie :: "string list \<Rightarrow> GameState \<Rightarrow> error + GameState" where
  "recover_lie vocab s =
     (if candidates s = [] \<and> 0 < num_lies s then
        (case try_lie_columns vocab (history s) (guessed_words s) [0..<5] of
           Inl e \<Rightarrow> Inl e
         | Inr None \<Rightarrow> Inr s
         | Inr (Some (test_constraints, test_candidates)) \<Rightarrow>
             Inr (s\<lparr>candidates := test_candidates, solver_constraints := test_constraints\<rparr>))
      else Inr s)"

text \<open>Lines 741-743: the scan of the whole vocabulary, guessed words included.\<close>

definition rescan :: "string list \<Rightarrow> GameState \<Rightarrow> error + GameState" where
  "rescan vocab s =
     (if candidates s = [] then
        (case filter_matching (solver_constraints s) [] vocab of
           Inl e \<Rightarrow> Inl e
         | Inr cs \<Rightarrow> Inr (s\<lparr>candidates := cs\<rparr>))
      else Inr s)"

text \<open>
  Lines 788-813: \<open>llm attempt\<close> is what \<open>_call_llm\<close> returns on call number \<open>attempt\<close> of
  this turn (the prompt goes to the oracle and nowhere else, so it is not modelled). The
  result is the accepted guess with the number of calls made, or None when the budget is
  spent.
\<close>

fun llm_loop :: "string list \<Rightarrow> (nat \<Rightarrow> string option) \<Rightarrow> Constraints \<Rightarrow> nat list
    \<Rightarrow> error + (string \<times> nat) option" where
  "llm_loop vocab llm c [] = Inr None"
| "llm_loop vocab llm c (attempt # rest) =
     (case llm attempt of
        None \<Rightarrow> llm_loop vocab llm c rest
      | Some resp \<Rightarrow>
          if resp = [] then llm_loop vocab llm c rest
          else (case extract_word vocab resp of
                  None \<Rightarrow> llm_loop vocab llm c rest
                | Some guess \<Rightarrow>
                    (case matches c guess of
                       Inl e \<Rightarrow> Inl e
                     | Inr True \<Rightarrow> Inr (Some (guess, attempt + 1))
                     | Inr False \<Rightarrow> llm_loop vocab llm c rest)))"

text \<open>\<open>self.enter_word(guess); self.was_valid_guess = True; return calls\<close>\<close>

definition submit :: "GameState \<Rightarrow> string \<Rightarrow> nat \<Rightarrow> error + (GameState \<times> nat)" where
  "submit s guess calls =
     (case enter_word s guess of
        Inl e \<Rightarrow> Inl e
      | Inr s' \<Rightarrow> Inr (s'\<lparr>was_valid_guess := True\<rparr>, calls))"

text \<open>\<open>enter_word_from_ai\<close>: the new state and the number of oracle calls made.\<close>

definition enter_word_from_ai :: "string list \<Rightarrow> (string \<Rightarrow> real) \<Rightarrow> (nat \<Rightarrow> string option)
    \<Rightarrow> GameState \<Rightarrow> error + (GameState \<times> nat)" where
  "enter_word_from_ai vocab score llm s0 =
     (let s = s0\<lparr>guess_num := guess_num s0 + 1\<rparr> in
      if guess_num s = 1 then submit s (STARTERS ! 0) 0
      else
        case ingest_prev s of Inl e \<Rightarrow> Inl e | Inr s1 \<Rightarrow>
        case filter_candidates s1 of Inl e \<Rightarrow> Inl e | Inr s2 \<Rightarrow>
        case recover_lie vocab s2 of Inl e \<Rightarrow> Inl e | Inr s3 \<Rightarrow>
          if length (candidates s3) = 1 then submit s3 (candidates s3 ! 0) 0
          else
            case rescan vocab s3 of Inl e \<Rightarrow> Inl e | Inr s4 \<Rightarrow>
              if candidates s4 = [] then
                submit s4 (STARTERS ! (guess_num s4 mod length STARTERS)) 0
              else
                let scored = sorted_desc score (candidates s4) in
                case llm_loop vocab llm (solver_constraints s4) [0..<MAX_LLM_CONTINUOUS_CALLS] of
                  Inl e \<Rightarrow> Inl e
                | Inr (Some (guess, calls)) \<Rightarrow> submit s4 guess calls
                | Inr None \<Rightarrow> submit s4 (scored ! 0) MAX_LLM_CONTINUOUS_CALLS)"

section \<open>Properties\<close>

subsection \<open>The feedback engine\<close>

lemma credited_card:
  "length fbs \<le> length g \<Longrightarrow>
   credited g fbs l = card {i. i < length fbs \<and> g ! i = l \<and> fbs ! i \<noteq> incorrect}"
proof -
  assume le: "length fbs \<le> length g"
  have "{i. i < length (zip g fbs) \<and> (\<lambda>(c, f). c = l \<and> f \<noteq> incorrect) (zip g fbs ! i)}
      = {i. i < length fbs \<and> g ! i = l \<and> fbs ! i \<noteq> incorrect}"
    using le by auto
  then show ?thesis
    unfolding credited_def length_filter_conv_card by simp
qed

lemma first_pass_result:
  "\<forall>i \<in> set is. i < length g \<and> i < length t \<Longrightarrow>
   \<exists>fb' ts'. first_pass g t is (fb, ts) = Inr (fb', ts') \<and>
     length fb' = length fb \<and> length ts' = length ts \<and>
     (\<forall>j < length fb. fb' ! j = (if j \<in> set is \<and> g ! j = t ! j then correct else fb ! j)) \<and>
     (\<forall>j < length ts. ts' ! j = (if j \<in> set is \<and> g ! j = t ! j then None else ts ! j))"
proof (induction "is" arbitrary: fb ts)
  case Nil
  then show ?case by simp
next
  case (Cons i "is")
  have bounds: "\<forall>i \<in> set is. i < length g \<and> i < length t" and i: "i < length g" "i < length t"
    using Cons.prems by auto
  show ?case
  proof (cases "g ! i = t ! i")
    case True
    from Cons.IH[OF bounds, of "fb[i := correct]" "ts[i := None]"]
    obtain fb' ts' where r: "first_pass g t is (fb[i := correct], ts[i := None]) = Inr (fb', ts')"
      "length fb' = length fb" "length ts' = length ts"
      "\<forall>j < length fb. fb' ! j = (if j \<in> set is \<and> g ! j = t ! j then correct else fb[i := correct] ! j)"
      "\<forall>j < length ts. ts' ! j = (if j \<in> set is \<and> g ! j = t ! j then None else ts[i := None] ! j)"
      by auto
    have "fb' ! j = (if j \<in> set (i # is) \<and> g ! j = t ! j then correct else fb ! j)"
      if "j < length fb" for j
      using r(4) that True by (cases "j = i") auto
    moreover have "ts' ! j = (if j \<in> set (i # is) \<and> g ! j = t ! j then None else ts ! j)"
      if "j < length ts" for j
      using r(5) that True by (cases "j = i") auto
    ultimately show ?thesis using r(1,2,3) i True by simp
  next
    case False
    from Cons.IH[OF bounds, of fb ts]
    obtain fb' ts' where r: "first_pass g t is (fb, ts) = Inr (fb', ts')"
      "length fb' = length fb" "length ts' = length ts"
      "\<forall>j < length fb. fb' ! j = (if j \<in> set is \<and> g ! j = t ! j then correct else fb ! j)"
      "\<forall>j < length ts. ts' ! j = (if j \<in> set is \<and> g ! j = t ! j then None else ts ! j)"
      by auto
    show ?thesis using r i False by auto
  qed
qed

lemma index_of_nth: "x \<in> set xs \<Longrightarrow> index_of xs x < length xs \<and> xs ! index_of xs x = x"
  by (induction xs) auto

lemma avail_consume:
  assumes "Some c \<in> set ts"
  shows "avail (ts[index_of ts (Some c) := None]) l = avail ts l - (if l = c then 1 else 0)"
    and "0 < avail ts c"
proof -
  let ?k = "index_of ts (Some c)"
  have k: "?k < length ts" "ts ! ?k = Some c" using index_of_nth[OF assms] by auto
  show "avail (ts[?k := None]) l = avail ts l - (if l = c then 1 else 0)"
    using k by (simp add: avail_def mset_update)
  show "0 < avail ts c" using assms by (simp add: avail_def)
qed

lemma avail_zero: "Some c \<notin> set ts \<Longrightarrow> avail ts c = 0"
  by (simp add: avail_def count_eq_zero_iff)


lemma count_mset_card: "count (mset xs) x = card {i. i < length xs \<and> xs ! i = x}"
proof -
  have "{i. i < length xs \<and> x = xs ! i} = {i. i < length xs \<and> xs ! i = x}" by auto
  then show ?thesis
    by (simp add: count_mset count_list_eq_length_filter length_filter_conv_card)
qed

lemma credited_step:
  assumes "i < length fb" "length fb \<le> length g" "fb ! i = incorrect" "f \<noteq> incorrect"
  shows "credited g (fb[i := f]) l = credited g fb l + (if g ! i = l then 1 else 0)"
proof -
  let ?A = "{j. j < length fb \<and> g ! j = l \<and> fb ! j \<noteq> incorrect}"
  let ?B = "{j. j < length (fb[i := f]) \<and> g ! j = l \<and> fb[i := f] ! j \<noteq> incorrect}"
  have fin: "finite ?A" by simp
  have notin: "i \<notin> ?A" using assms(3) by simp
  have "?B = (if g ! i = l then insert i ?A else ?A)"
    using assms by (auto simp: nth_list_update split: if_splits)
  then have "card ?B = card ?A + (if g ! i = l then 1 else 0)"
    using fin notin by simp
  then show ?thesis
    using assms(2) by (simp add: credited_card)
qed

lemma first_pass_balance:
  assumes "length g = n" "length t = n" "length fb = n" "length ts = n"
    and fb: "\<forall>j < n. fb ! j = (if g ! j = t ! j then correct else incorrect)"
    and ts: "\<forall>j < n. ts ! j = (if g ! j = t ! j then None else Some (t ! j))"
  shows "credited g fb l + avail ts l = count_list t l"
proof -
  let ?A = "{i. i < n \<and> t ! i = l \<and> g ! i = t ! i}"
  let ?B = "{i. i < n \<and> t ! i = l \<and> g ! i \<noteq> t ! i}"
  have c: "credited g fb l = card ?A"
  proof -
    have "{i. i < length fb \<and> g ! i = l \<and> fb ! i \<noteq> incorrect} = ?A"
      using assms(3) fb by (auto split: if_splits)
    then show ?thesis using assms(1,3) by (simp add: credited_card)
  qed
  have a: "avail ts l = card ?B"
  proof -
    have "{i. i < length ts \<and> ts ! i = Some l} = ?B"
      using assms(4) ts by (auto split: if_splits)
    then show ?thesis by (simp add: avail_def count_mset_card)
  qed
  have t: "count_list t l = card {i. i < n \<and> t ! i = l}"
    using assms(2) count_mset_card[of t l] by (simp add: count_mset)
  have "{i. i < n \<and> t ! i = l} = ?A \<union> ?B" by auto
  moreover have "?A \<inter> ?B = {}" by auto
  moreover have "finite ?A" "finite ?B" by simp_all
  ultimately have "card {i. i < n \<and> t ! i = l} = card ?A + card ?B"
    by (simp add: card_Un_disjoint)
  then show ?thesis using c a t by simp
qed

lemma second_pass_result:
  assumes "\<forall>i \<in> set is. i < length g \<and> i < length fb" "length fb \<le> length g"
  shows "\<exists>fb' ts'. second_pass g is (fb, ts) = Inr (fb', ts') \<and> length fb' = length fb \<and>
     (\<forall>j < length fb. (fb' ! j = correct \<longleftrightarrow> fb ! j = correct) \<and>
                       (fb ! j \<noteq> incorrect \<longrightarrow> fb' ! j \<noteq> incorrect)) \<and>
     (\<forall>l. credited g fb' l + avail ts' l = credited g fb l + avail ts l) \<and>
     (\<forall>l. avail ts' l \<le> avail ts l) \<and>
     (\<forall>j \<in> set is. fb' ! j = incorrect \<longrightarrow> avail ts' (g ! j) = 0)"
  using assms
proof (induction "is" arbitrary: fb ts)
  case Nil
  then show ?case by simp
next
  case (Cons i "is")
  have i: "i < length g" "i < length fb" using Cons.prems by auto
  have rest: "\<forall>i \<in> set is. i < length g \<and> i < length fb" using Cons.prems by auto
  show ?case
  proof (cases "fb ! i = incorrect \<and> Some (g ! i) \<in> set ts")
    case True
    let ?fb1 = "fb[i := present]"
    let ?ts1 = "ts[index_of ts (Some (g ! i)) := None]"
    have rest1: "\<forall>i \<in> set is. i < length g \<and> i < length ?fb1" using rest by simp
    have len1: "length ?fb1 \<le> length g" using Cons.prems(2) by simp
    from Cons.IH[OF rest1 len1, of ?ts1]
    obtain fb' ts' where r: "second_pass g is (?fb1, ?ts1) = Inr (fb', ts')"
      "length fb' = length ?fb1"
      "\<forall>j < length ?fb1. (fb' ! j = correct \<longleftrightarrow> ?fb1 ! j = correct) \<and>
                       (?fb1 ! j \<noteq> incorrect \<longrightarrow> fb' ! j \<noteq> incorrect)"
      "\<forall>l. credited g fb' l + avail ts' l = credited g ?fb1 l + avail ?ts1 l"
      "\<forall>l. avail ts' l \<le> avail ?ts1 l"
      "\<forall>j \<in> set is. fb' ! j = incorrect \<longrightarrow> avail ts' (g ! j) = 0"
      by blast
    have run: "second_pass g (i # is) (fb, ts) = Inr (fb', ts')"
      using True i r(1) by simp
    have cs: "credited g ?fb1 l = credited g fb l + (if g ! i = l then 1 else 0)" for l
      using credited_step[OF i(2) Cons.prems(2), of present l] True by simp
    have av: "avail ?ts1 l = avail ts l - (if l = g ! i then 1 else 0)" for l
      using avail_consume(1)[of "g ! i" ts l] True by simp
    have pos: "0 < avail ts (g ! i)" using avail_consume(2)[of "g ! i" ts] True by simp
    have bal: "credited g fb' l + avail ts' l = credited g fb l + avail ts l" for l
      using r(4) cs[of l] av[of l] pos by (cases "l = g ! i") auto
    have mono: "avail ts' l \<le> avail ts l" for l
      using r(5) av[of l] by (metis diff_le_self le_trans)
    have corr: "(fb' ! j = correct \<longleftrightarrow> fb ! j = correct) \<and>
                (fb ! j \<noteq> incorrect \<longrightarrow> fb' ! j \<noteq> incorrect)" if "j < length fb" for j
      using r(3) that True by (cases "j = i") auto
    have fbi: "fb' ! i \<noteq> incorrect" using r(3) i by auto
    show ?thesis
      using run r(2) bal mono corr fbi r(6) by auto
  next
    case False
    from Cons.IH[OF rest Cons.prems(2), of ts]
    obtain fb' ts' where r: "second_pass g is (fb, ts) = Inr (fb', ts')"
      "length fb' = length fb"
      "\<forall>j < length fb. (fb' ! j = correct \<longleftrightarrow> fb ! j = correct) \<and>
                       (fb ! j \<noteq> incorrect \<longrightarrow> fb' ! j \<noteq> incorrect)"
      "\<forall>l. credited g fb' l + avail ts' l = credited g fb l + avail ts l"
      "\<forall>l. avail ts' l \<le> avail ts l"
      "\<forall>j \<in> set is. fb' ! j = incorrect \<longrightarrow> avail ts' (g ! j) = 0"
      by blast
    have run: "second_pass g (i # is) (fb, ts) = Inr (fb', ts')"
      using False i r(1) by auto
    have "avail ts' (g ! i) = 0" if "fb' ! i = incorrect"
    proof -
      have "fb ! i = incorrect" using r(3) i that by auto
      then have "Some (g ! i) \<notin> set ts" using False by simp
      then have "avail ts (g ! i) = 0" by (rule avail_zero)
      then show ?thesis using r(5) by (metis le_zero_eq)
    qed
    then show ?thesis
      using run r(2,3,4,5,6) by auto
  qed
qed


lemma length_lower [simp]: "length (lower s) = length s"
  by (simp add: lower_def)

lemma truthful_feedback_spec:
  assumes "length guess = 5" "length target = 5"
  shows "\<exists>fb. truthful_feedback guess target = Inr fb \<and> length fb = 5 \<and>
    (\<forall>i < 5. fb ! i = correct \<longleftrightarrow> lower guess ! i = lower target ! i) \<and>
    (\<forall>l. credited (lower guess) fb l \<le> count_list (lower target) l) \<and>
    (\<forall>i < 5. fb ! i = incorrect \<longrightarrow>
        credited (lower guess) fb (lower guess ! i) = count_list (lower target) (lower guess ! i))"
proof -
  define g where "g = lower guess"
  define t where "t = lower target"
  have lg: "length g = 5" and lt: "length t = 5" using assms by (simp_all add: g_def t_def)
  have b1: "\<forall>i \<in> set [0..<5]. i < length g \<and> i < length t" using lg lt by simp
  from first_pass_result[OF b1, of "replicate 5 incorrect" "map Some t"]
  obtain fb1 ts1 where p1: "first_pass g t [0..<5] (replicate 5 incorrect, map Some t) = Inr (fb1, ts1)"
    "length fb1 = 5" "length ts1 = 5"
    "\<forall>j < 5. fb1 ! j = (if g ! j = t ! j then correct else incorrect)"
    "\<forall>j < 5. ts1 ! j = (if g ! j = t ! j then None else Some (t ! j))"
    using lt by auto
  have bal1: "credited g fb1 l + avail ts1 l = count_list t l" for l
    by (rule first_pass_balance[OF lg lt p1(2) p1(3) p1(4) p1(5)])
  have b2: "\<forall>i \<in> set [0..<5]. i < length g \<and> i < length fb1" using lg p1(2) by simp
  have le: "length fb1 \<le> length g" using lg p1(2) by simp
  from second_pass_result[OF b2 le, of ts1]
  obtain fb ts where p2: "second_pass g [0..<5] (fb1, ts1) = Inr (fb, ts)"
    "length fb = length fb1"
    "\<forall>j < length fb1. (fb ! j = correct \<longleftrightarrow> fb1 ! j = correct) \<and>
                       (fb1 ! j \<noteq> incorrect \<longrightarrow> fb ! j \<noteq> incorrect)"
    "\<forall>l. credited g fb l + avail ts l = credited g fb1 l + avail ts1 l"
    "\<forall>l. avail ts l \<le> avail ts1 l"
    "\<forall>j \<in> set [0..<5]. fb ! j = incorrect \<longrightarrow> avail ts (g ! j) = 0"
    by blast
  have run: "truthful_feedback guess target = Inr fb"
    using p1(1) p2(1) by (simp add: truthful_feedback_def g_def t_def)
  have bal: "credited g fb l + avail ts l = count_list t l" for l
    using p2(4) bal1[of l] by simp
  have c: "fb ! i = correct \<longleftrightarrow> g ! i = t ! i" if "i < 5" for i
    using p2(3) p1(2,4) that by auto
  have le_count: "credited g fb l \<le> count_list t l" for l
    using bal[of l] by simp
  have exact: "credited g fb (g ! i) = count_list t (g ! i)" if "i < 5" "fb ! i = incorrect" for i
  proof -
    have "avail ts (g ! i) = 0" using p2(6) that by simp
    then show ?thesis using bal[of "g ! i"] by simp
  qed
  show ?thesis
    using run p2(2) p1(2) c le_count exact unfolding g_def t_def by auto
qed

lemma calculate_feedback_no_lie:
  "\<not> (num_lies s > 0 \<and> lies_given s < num_lies s) \<Longrightarrow>
   calculate_feedback s guess =
     (case truthful_feedback guess (target_word s) of Inl e \<Rightarrow> Inl e | Inr fbs \<Rightarrow> Inr (fbs, s))"
  by (auto simp: calculate_feedback_def split: sum.splits)

text \<open>
  C1: for a five-letter guess and a five-letter target, when no lie applies (not Fibble
  mode, or the lie budget is spent), \<open>_calculate_feedback\<close> returns five tags and leaves
  the game state alone; a position is tagged correct exactly when guess and target agree
  there; and for every letter the number of its copies in the guess tagged correct or
  present is at most the number of its copies in the target. Both words are compared in
  lower case, as the code does (\<open>lower\<close> leaves a lowercase word unchanged).
\<close>

theorem feedback_length_correct_count:
  assumes "length guess = 5" and "length (target_word s) = 5"
    and "\<not> (num_lies s > 0 \<and> lies_given s < num_lies s)"
  shows "\<exists>fbs. calculate_feedback s guess = Inr (fbs, s) \<and> length fbs = 5 \<and>
    (\<forall>i < 5. fbs ! i = correct \<longleftrightarrow> lower guess ! i = lower (target_word s) ! i) \<and>
    (\<forall>l. credited (lower guess) fbs l \<le> count_list (lower (target_word s)) l)"
proof -
  from truthful_feedback_spec[OF assms(1,2)]
  obtain fbs where t: "truthful_feedback guess (target_word s) = Inr fbs" "length fbs = 5"
    "\<forall>i < 5. fbs ! i = correct \<longleftrightarrow> lower guess ! i = lower (target_word s) ! i"
    "\<forall>l. credited (lower guess) fbs l \<le> count_list (lower (target_word s)) l"
    by blast
  have "calculate_feedback s guess = Inr (fbs, s)"
    using calculate_feedback_no_lie[OF assms(3), of guess] t(1) by simp
  then show ?thesis using t(2,3,4) by blast
qed

theorem feedback_length_correct_count_witness:
  "length ''ladle'' = 5 \<and> length (target_word (init [''level''] ''level'' 0)) = 5 \<and>
   num_lies (init [''level''] ''level'' 0) = 0 \<and>
   (\<exists>fbs. calculate_feedback (init [''level''] ''level'' 0) ''ladle''
            = Inr (fbs, init [''level''] ''level'' 0) \<and> length fbs = 5 \<and>
          credited (lower ''ladle'') fbs (CHR ''l'') \<le> count_list (lower ''level'') (CHR ''l''))"
  using feedback_length_correct_count[of "''ladle''" "init [''level''] ''level'' 0"]
  by (auto simp: init_def reset_def)

subsection \<open>Constraints.update\<close>

lemma in_enum_zip:
  "(i, l, f) \<in> set (enum_zip w fbs) \<longleftrightarrow> i < length w \<and> i < length fbs \<and> l = w ! i \<and> f = fbs ! i"
proof -
  have "(i, y) \<in> set (zip [0..<length zs] zs) \<longleftrightarrow> i < length zs \<and> zs ! i = y" for y and zs :: "(char \<times> Feedback) list"
  proof
    assume "(i, y) \<in> set (zip [0..<length zs] zs)"
    then obtain k where "k < length zs" "[0..<length zs] ! k = i" "zs ! k = y"
      by (auto simp: in_set_zip)
    then show "i < length zs \<and> zs ! i = y" by auto
  next
    assume a: "i < length zs \<and> zs ! i = y"
    then have "zip [0..<length zs] zs ! i = (i, y)" by simp
    moreover have "i < length (zip [0..<length zs] zs)" using a by simp
    ultimately show "(i, y) \<in> set (zip [0..<length zs] zs)" by (metis nth_mem)
  qed
  from this[of "(l, f)" "zip w fbs"] show ?thesis
    unfolding enum_zip_def by auto
qed

lemma set_alist_update: "set (AList.update k v al) \<subseteq> insert (k, v) (set al)"
  by (induction al) auto

lemma dict_get_update:
  "dict_get (AList.update k v al) k' d = (if k' = k then v else dict_get al k' d)"
  by (simp add: dict_get_def update_conv')

lemma update_marks_confirmed:
  "update_marks ic marks (c, conf) = Inr (c', conf') \<Longrightarrow>
   dict_get conf' l 0 = dict_get conf l 0 + confirmed_count ic marks l"
proof (induction marks arbitrary: c conf)
  case Nil
  then show ?case by (simp add: confirmed_count_def)
next
  case (Cons m marks)
  obtain i x f where m: "m = (i, x, f)" by (cases m) auto
  show ?case
    using Cons.prems Cons.IH unfolding m
    by (cases f) (auto simp: confirmed_count_def dict_get_update split: if_splits)
qed

lemma update_marks_keys:
  "update_marks ic marks (c, conf) = Inr (c', conf') \<Longrightarrow>
   fst ` set conf' = fst ` set conf \<union>
     {x. \<exists>i f. (i, x, f) \<in> set marks \<and> int i \<noteq> ic \<and> f \<noteq> incorrect}"
proof (induction marks arbitrary: c conf)
  case Nil
  then show ?case by simp
next
  case (Cons m marks)
  obtain i x f where m: "m = (i, x, f)" by (cases m) auto
  show ?case
  proof (cases "int i = ic \<or> f = incorrect")
    case True
    then have "update_marks ic marks (c, conf) = Inr (c', conf')"
      using Cons.prems unfolding m by (cases f) (auto split: if_splits)
    from Cons.IH[OF this] show ?thesis using True unfolding m by auto
  next
    case False
    then obtain c1 where
      "update_marks ic marks (c1, AList.update x (dict_get conf x 0 + 1) conf) = Inr (c', conf')"
      using Cons.prems unfolding m by (cases f) (auto split: if_splits)
    from Cons.IH[OF this] show ?thesis using False unfolding m
      by (auto simp: dom_update)
  qed
qed

lemma update_marks_fields:
  "update_marks ic marks (c, conf) = Inr (c', conf') \<Longrightarrow>
   min_count c' = min_count c \<and> max_count c' = max_count c \<and>
   length (excluded_pos c') = length (excluded_pos c) \<and>
   (\<forall>j < length (excluded_pos c). excluded_pos c ! j \<subseteq> excluded_pos c' ! j \<and>
      excluded_pos c' ! j \<subseteq> excluded_pos c ! j \<union> {x. (j, x, present) \<in> set marks \<and> int j \<noteq> ic}) \<and>
   fst ` set (correct_pos c) \<subseteq> fst ` set (correct_pos c') \<and>
   set (correct_pos c') \<subseteq> set (correct_pos c) \<union> {(i, x). (i, x, correct) \<in> set marks \<and> int i \<noteq> ic}"
proof (induction marks arbitrary: c conf)
  case Nil
  then show ?case by auto
next
  case (Cons m marks)
  obtain i x f where m: "m = (i, x, f)" by (cases m) auto
  show ?case
  proof (cases "int i = ic \<or> f = incorrect")
    case True
    then have "update_marks ic marks (c, conf) = Inr (c', conf')"
      using Cons.prems unfolding m by (cases f) (auto split: if_splits)
    from Cons.IH[OF this] show ?thesis unfolding m by auto
  next
    case False
    show ?thesis
    proof (cases f)
      case correct
      let ?c1 = "c\<lparr>correct_pos := AList.update i x (correct_pos c)\<rparr>"
      have "update_marks ic marks (?c1, AList.update x (dict_get conf x 0 + 1) conf) = Inr (c', conf')"
        using Cons.prems False correct unfolding m by auto
      from Cons.IH[OF this]
      have ih: "min_count c' = min_count c" "max_count c' = max_count c"
        "length (excluded_pos c') = length (excluded_pos c)"
        "\<forall>j < length (excluded_pos c). excluded_pos c ! j \<subseteq> excluded_pos c' ! j \<and>
           excluded_pos c' ! j \<subseteq> excluded_pos c ! j \<union> {x. (j, x, present) \<in> set marks \<and> int j \<noteq> ic}"
        "fst ` set (AList.update i x (correct_pos c)) \<subseteq> fst ` set (correct_pos c')"
        "set (correct_pos c') \<subseteq> set (AList.update i x (correct_pos c)) \<union>
            {(i, x). (i, x, correct) \<in> set marks \<and> int i \<noteq> ic}"
        by simp_all
      have k: "fst ` set (correct_pos c) \<subseteq> fst ` set (correct_pos c')"
        using ih(5) by (auto simp: dom_update)
      have e: "set (correct_pos c') \<subseteq> set (correct_pos c) \<union>
            {(i, x). (i, x, correct) \<in> set (m # marks) \<and> int i \<noteq> ic}"
        using ih(6) set_alist_update[of i x "correct_pos c"] False correct unfolding m by auto
      show ?thesis using ih(1,2,3,4) k e unfolding m by auto
    next
      case present
      let ?c1 = "c\<lparr>excluded_pos := (excluded_pos c)[i := insert x (excluded_pos c ! i)]\<rparr>"
      have i: "i < length (excluded_pos c)"
        using Cons.prems False present unfolding m by (auto split: if_splits)
      have "update_marks ic marks (?c1, AList.update x (dict_get conf x 0 + 1) conf) = Inr (c', conf')"
        using Cons.prems False present i unfolding m by auto
      from Cons.IH[OF this]
      have ih: "min_count c' = min_count c" "max_count c' = max_count c"
        "length (excluded_pos c') = length (excluded_pos c)"
        "\<forall>j < length (excluded_pos c).
           (excluded_pos c)[i := insert x (excluded_pos c ! i)] ! j \<subseteq> excluded_pos c' ! j \<and>
           excluded_pos c' ! j \<subseteq> (excluded_pos c)[i := insert x (excluded_pos c ! i)] ! j
              \<union> {x. (j, x, present) \<in> set marks \<and> int j \<noteq> ic}"
        "fst ` set (correct_pos c) \<subseteq> fst ` set (correct_pos c')"
        "set (correct_pos c') \<subseteq> set (correct_pos c) \<union>
            {(i, x). (i, x, correct) \<in> set marks \<and> int i \<noteq> ic}"
        by simp_all
      have ex: "excluded_pos c ! j \<subseteq> excluded_pos c' ! j \<and>
           excluded_pos c' ! j \<subseteq> excluded_pos c ! j \<union> {x. (j, x, present) \<in> set (m # marks) \<and> int j \<noteq> ic}"
        if "j < length (excluded_pos c)" for j
        using ih(4)[rule_format, OF that] that False present unfolding m
        by (cases "j = i") (auto simp: nth_list_update)
      show ?thesis using ih(1,2,3,5,6) ex unfolding m by auto
    next
      case incorrect
      then show ?thesis using False by simp
    qed
  qed
qed

lemma update_marks_total:
  "\<forall>(i, x, f) \<in> set marks. i < length (excluded_pos c) \<Longrightarrow>
   \<exists>c' conf'. update_marks ic marks (c, conf) = Inr (c', conf')"
proof (induction marks arbitrary: c conf)
  case Nil
  then show ?case by simp
next
  case (Cons m marks)
  obtain i x f where m: "m = (i, x, f)" by (cases m) auto
  have i: "i < length (excluded_pos c)" using Cons.prems unfolding m by simp
  have r: "\<forall>(i, x, f) \<in> set marks. i < length (excluded_pos c1)"
    if "length (excluded_pos c1) = length (excluded_pos c)" for c1 :: Constraints
    using Cons.prems that by auto
  have same: "\<exists>c' conf'. update_marks ic marks (c, conf0) = Inr (c', conf')" for conf0
    by (rule Cons.IH[OF r]) simp
  have pin: "\<exists>c' conf'. update_marks ic marks
      (c\<lparr>correct_pos := AList.update i x (correct_pos c)\<rparr>, conf0) = Inr (c', conf')" for conf0
    by (rule Cons.IH[OF r]) simp
  have excl: "\<exists>c' conf'. update_marks ic marks
      (c\<lparr>excluded_pos := (excluded_pos c)[i := insert x (excluded_pos c ! i)]\<rparr>, conf0)
      = Inr (c', conf')" for conf0
    by (rule Cons.IH[OF r]) simp
  show ?case unfolding m using i same pin excl
    by (cases f) auto
qed


lemma update_min_fields:
  "correct_pos (update_min conf c) = correct_pos c \<and>
   excluded_pos (update_min conf c) = excluded_pos c \<and>
   max_count (update_min conf c) = max_count c"
  by (induction conf c rule: update_min.induct) auto

lemma update_min_mono:
  "dict_get (min_count c) l 0 \<le> dict_get (min_count (update_min conf c)) l 0 \<and>
   (map_of (min_count c) l \<noteq> None \<longrightarrow> map_of (min_count (update_min conf c)) l \<noteq> None)"
proof (induction conf c rule: update_min.induct)
  case (1 c)
  then show ?case by simp
next
  case (2 k n rest c)
  let ?c1 = "c\<lparr>min_count := AList.update k (max (dict_get (min_count c) k 0) n) (min_count c)\<rparr>"
  have "dict_get (min_count c) l 0 \<le> dict_get (min_count ?c1) l 0"
    by (simp add: dict_get_update)
  moreover have "map_of (min_count c) l \<noteq> None \<longrightarrow> map_of (min_count ?c1) l \<noteq> None"
    by (simp add: update_conv')
  ultimately show ?case using 2 by (auto simp del: fun_upd_apply intro: le_trans)
qed

lemma update_min_confirmed:
  "(l, n) \<in> set conf \<Longrightarrow>
   map_of (min_count (update_min conf c)) l \<noteq> None \<and> n \<le> dict_get (min_count (update_min conf c)) l 0"
proof (induction conf c rule: update_min.induct)
  case (1 c)
  then show ?case by simp
next
  case (2 k m rest c)
  let ?c1 = "c\<lparr>min_count := AList.update k (max (dict_get (min_count c) k 0) m) (min_count c)\<rparr>"
  show ?case
  proof (cases "(l, n) = (k, m)")
    case True
    have a: "map_of (min_count ?c1) l \<noteq> None" "n \<le> dict_get (min_count ?c1) l 0"
      using True by (simp_all add: update_conv' dict_get_update)
    from update_min_mono[of ?c1 l rest] a show ?thesis
      by (auto intro: le_trans)
  next
    case False
    then have "(l, n) \<in> set rest" using 2(2) by auto
    from 2(1)[OF this] show ?thesis by simp
  qed
qed

lemma dict_get_bounded:
  "\<forall>(l, m) \<in> set al. m \<le> K l \<Longrightarrow> dict_get al l 0 \<le> (K l :: nat)"
  by (auto simp: dict_get_def split: option.splits dest: map_of_SomeD)

lemma update_min_bounded:
  "\<forall>(l, m) \<in> set (min_count c). m \<le> (K l :: nat) \<Longrightarrow> \<forall>(l, n) \<in> set conf. n \<le> K l \<Longrightarrow>
   \<forall>(l, m) \<in> set (min_count (update_min conf c)). m \<le> K l"
proof (induction conf c rule: update_min.induct)
  case (1 c)
  then show ?case by simp
next
  case (2 k n rest c)
  let ?v = "max (dict_get (min_count c) k 0) n"
  let ?c1 = "c\<lparr>min_count := AList.update k ?v (min_count c)\<rparr>"
  have v: "?v \<le> K k" using dict_get_bounded[OF 2(2), of k] 2(3) by auto
  have "\<forall>(l, m) \<in> set (min_count ?c1). m \<le> K l"
    using set_alist_update[of k ?v "min_count c"] 2(2) v by auto
  moreover have "\<forall>(l, n) \<in> set rest. n \<le> K l" using 2(3) by auto
  ultimately show ?case using 2(1) by simp
qed

lemma exclude_all_result:
  "exclude_all ic l js c = Inr c' \<Longrightarrow>
   correct_pos c' = correct_pos c \<and> min_count c' = min_count c \<and> max_count c' = max_count c \<and>
   length (excluded_pos c') = length (excluded_pos c) \<and>
   (\<forall>j \<in> set js. int j \<noteq> ic \<longrightarrow> j < length (excluded_pos c)) \<and>
   (\<forall>j < length (excluded_pos c). excluded_pos c' ! j =
      (if j \<in> set js \<and> int j \<noteq> ic then insert l (excluded_pos c ! j) else excluded_pos c ! j))"
proof (induction js arbitrary: c)
  case Nil
  then show ?case by simp
next
  case (Cons j js)
  show ?case
  proof (cases "int j \<noteq> ic")
    case True
    let ?c1 = "c\<lparr>excluded_pos := (excluded_pos c)[j := insert l (excluded_pos c ! j)]\<rparr>"
    have j: "j < length (excluded_pos c)" and run: "exclude_all ic l js ?c1 = Inr c'"
      using Cons.prems True by (auto split: if_splits)
    from Cons.IH[OF run]
    have ih: "correct_pos c' = correct_pos c" "min_count c' = min_count c" "max_count c' = max_count c"
      "length (excluded_pos c') = length (excluded_pos c)"
      "\<forall>j \<in> set js. int j \<noteq> ic \<longrightarrow> j < length (excluded_pos c)"
      "\<forall>k < length (excluded_pos c). excluded_pos c' ! k =
        (if k \<in> set js \<and> int k \<noteq> ic then insert l (excluded_pos ?c1 ! k) else excluded_pos ?c1 ! k)"
      by simp_all
    have "excluded_pos c' ! k =
      (if k \<in> set (j # js) \<and> int k \<noteq> ic then insert l (excluded_pos c ! k) else excluded_pos c ! k)"
      if "k < length (excluded_pos c)" for k
      using ih(6)[rule_format, OF that] that True
      by (cases "k = j") (auto simp: nth_list_update)
    then show ?thesis using ih(1-5) j by auto
  next
    case False
    then have "exclude_all ic l js c = Inr c'" using Cons.prems by simp
    from Cons.IH[OF this] show ?thesis using False by auto
  qed
qed

lemma exclude_all_total:
  "\<forall>j \<in> set js. j < length (excluded_pos c) \<Longrightarrow> \<exists>c'. exclude_all ic l js c = Inr c'"
proof (induction js arbitrary: c)
  case Nil
  then show ?case by simp
next
  case (Cons j js)
  have a: "\<exists>c'. exclude_all ic l js c = Inr c'"
    by (rule Cons.IH) (use Cons.prems in auto)
  have b: "\<exists>c'. exclude_all ic l js
      (c\<lparr>excluded_pos := (excluded_pos c)[j := insert l (excluded_pos c ! j)]\<rparr>) = Inr c'"
    by (rule Cons.IH) (use Cons.prems in auto)
  show ?case using a b Cons.prems by auto
qed


lemma update_incorrect_ConsE:
  assumes "update_incorrect ic conf ((i, x, f) # rest) c = Inr c'"
  obtains (skip) "int i = ic \<or> f \<noteq> incorrect" "update_incorrect ic conf rest c = Inr c'"
  | (excl) c2 where "int i \<noteq> ic" "f = incorrect" "dict_get conf x 0 = 0"
      "exclude_all ic x [0..<5] (c\<lparr>max_count := AList.update x (dict_get conf x 0) (max_count c)\<rparr>) = Inr c2"
      "update_incorrect ic conf rest c2 = Inr c'"
  | (keep) "int i \<noteq> ic" "f = incorrect" "dict_get conf x 0 \<noteq> 0"
      "update_incorrect ic conf rest (c\<lparr>max_count := AList.update x (dict_get conf x 0) (max_count c)\<rparr>) = Inr c'"
proof (cases "int i = ic \<or> f \<noteq> incorrect")
  case True
  then have "update_incorrect ic conf rest c = Inr c'" using assms by (auto split: if_splits)
  then show ?thesis using True skip by blast
next
  case False
  show ?thesis
  proof (cases "dict_get conf x 0 = 0")
    case True
    then show ?thesis using assms False excl
      by (auto simp: Let_def split: sum.splits)
  next
    case nz: False
    then show ?thesis using assms False keep by (auto simp: Let_def)
  qed
qed

lemma update_incorrect_fields:
  "update_incorrect ic conf marks c = Inr c' \<Longrightarrow>
   correct_pos c' = correct_pos c \<and> min_count c' = min_count c \<and>
   length (excluded_pos c') = length (excluded_pos c) \<and>
   (\<forall>j < length (excluded_pos c). excluded_pos c ! j \<subseteq> excluded_pos c' ! j \<and>
      excluded_pos c' ! j \<subseteq> excluded_pos c ! j \<union>
        {x. int j \<noteq> ic \<and> (\<exists>i. (i, x, incorrect) \<in> set marks \<and> int i \<noteq> ic \<and> dict_get conf x 0 = 0)})"
proof (induction marks arbitrary: c)
  case Nil
  then show ?case by simp
next
  case (Cons m marks)
  obtain i x f where m: "m = (i, x, f)" by (cases m) auto
  let ?S = "\<lambda>ms j. {x. int j \<noteq> ic \<and> (\<exists>i. (i, x, incorrect) \<in> set ms \<and> int i \<noteq> ic \<and> dict_get conf x 0 = 0)}"
  have mono: "?S marks j \<subseteq> ?S (m # marks) j" for j by auto
  from Cons.prems[unfolded m] show ?case
  proof (cases rule: update_incorrect_ConsE)
    case skip
    from Cons.IH[OF skip(2)]
    have ih: "correct_pos c' = correct_pos c" "min_count c' = min_count c"
      "length (excluded_pos c') = length (excluded_pos c)"
      "\<forall>j < length (excluded_pos c). excluded_pos c ! j \<subseteq> excluded_pos c' ! j \<and>
        excluded_pos c' ! j \<subseteq> excluded_pos c ! j \<union> ?S marks j"
      by simp_all
    have "excluded_pos c ! j \<subseteq> excluded_pos c' ! j \<and>
      excluded_pos c' ! j \<subseteq> excluded_pos c ! j \<union> ?S (m # marks) j"
      if "j < length (excluded_pos c)" for j
    proof -
      have "excluded_pos c ! j \<union> ?S marks j \<subseteq> excluded_pos c ! j \<union> ?S (m # marks) j"
        by (rule Un_mono[OF subset_refl mono])
      with ih(4)[rule_format, OF that] show ?thesis by (meson subset_trans)
    qed
    then show ?thesis using ih(1,2,3) by simp
  next
    case (excl c2)
    let ?c1 = "c\<lparr>max_count := AList.update x (dict_get conf x 0) (max_count c)\<rparr>"
    from exclude_all_result[OF excl(4)]
    have e: "correct_pos c2 = correct_pos c" "min_count c2 = min_count c"
      "length (excluded_pos c2) = length (excluded_pos c)"
      "\<forall>j < length (excluded_pos c). excluded_pos c2 ! j =
         (if j \<in> set [0..<5] \<and> int j \<noteq> ic then insert x (excluded_pos c ! j) else excluded_pos c ! j)"
      by simp_all
    from Cons.IH[OF excl(5)]
    have ih: "correct_pos c' = correct_pos c2" "min_count c' = min_count c2"
      "length (excluded_pos c') = length (excluded_pos c2)"
      "\<forall>j < length (excluded_pos c2). excluded_pos c2 ! j \<subseteq> excluded_pos c' ! j \<and>
        excluded_pos c' ! j \<subseteq> excluded_pos c2 ! j \<union> ?S marks j"
      by simp_all
    have "excluded_pos c ! j \<subseteq> excluded_pos c' ! j \<and>
      excluded_pos c' ! j \<subseteq> excluded_pos c ! j \<union> ?S (m # marks) j"
      if "j < length (excluded_pos c)" for j
    proof -
      have j2: "j < length (excluded_pos c2)" using that e(3) by simp
      have a: "excluded_pos c ! j \<subseteq> excluded_pos c2 ! j"
        using e(4)[rule_format, OF that] by auto
      have b: "excluded_pos c2 ! j \<subseteq> excluded_pos c ! j \<union> {y. int j \<noteq> ic \<and> y = x}"
        using e(4)[rule_format, OF that] by (auto split: if_splits)
      have x: "{y. int j \<noteq> ic \<and> y = x} \<subseteq> ?S (m # marks) j"
        using excl(1,2,3) unfolding m by auto
      have u1: "excluded_pos c2 ! j \<union> ?S marks j \<subseteq>
          (excluded_pos c ! j \<union> {y. int j \<noteq> ic \<and> y = x}) \<union> ?S (m # marks) j"
        by (rule Un_mono[OF b mono])
      have u2: "(excluded_pos c ! j \<union> {y. int j \<noteq> ic \<and> y = x}) \<union> ?S (m # marks) j
          \<subseteq> excluded_pos c ! j \<union> ?S (m # marks) j"
        using x by (simp add: le_supI2)
      have "excluded_pos c' ! j \<subseteq> excluded_pos c ! j \<union> ?S (m # marks) j"
        using ih(4)[rule_format, OF j2] u1 u2 by (meson subset_trans)
      moreover have "excluded_pos c ! j \<subseteq> excluded_pos c' ! j"
        using ih(4)[rule_format, OF j2] a by (meson subset_trans)
      ultimately show ?thesis by simp
    qed
    then show ?thesis using e(1,2,3) ih(1,2,3) by simp
  next
    case keep
    from Cons.IH[OF keep(4)]
    have ih: "correct_pos c' = correct_pos c" "min_count c' = min_count c"
      "length (excluded_pos c') = length (excluded_pos c)"
      "\<forall>j < length (excluded_pos c). excluded_pos c ! j \<subseteq> excluded_pos c' ! j \<and>
        excluded_pos c' ! j \<subseteq> excluded_pos c ! j \<union> ?S marks j"
      by simp_all
    have "excluded_pos c ! j \<subseteq> excluded_pos c' ! j \<and>
      excluded_pos c' ! j \<subseteq> excluded_pos c ! j \<union> ?S (m # marks) j"
      if "j < length (excluded_pos c)" for j
    proof -
      have "excluded_pos c ! j \<union> ?S marks j \<subseteq> excluded_pos c ! j \<union> ?S (m # marks) j"
        by (rule Un_mono[OF subset_refl mono])
      with ih(4)[rule_format, OF that] show ?thesis by (meson subset_trans)
    qed
    then show ?thesis using ih(1,2,3) by simp
  qed
qed

lemma update_incorrect_max:
  "update_incorrect ic conf marks c = Inr c' \<Longrightarrow>
   map_of (max_count c') x =
     (if \<exists>i. (i, x, incorrect) \<in> set marks \<and> int i \<noteq> ic then Some (dict_get conf x 0)
      else map_of (max_count c) x)"
proof (induction marks arbitrary: c)
  case Nil
  then show ?case by simp
next
  case (Cons m marks)
  obtain i y f where m: "m = (i, y, f)" by (cases m) auto
  from Cons.prems[unfolded m] show ?case
  proof (cases rule: update_incorrect_ConsE)
    case skip
    from Cons.IH[OF skip(2)] skip(1) show ?thesis unfolding m by auto
  next
    case (excl c2)
    from exclude_all_result[OF excl(4)]
    have "max_count c2 = AList.update y (dict_get conf y 0) (max_count c)" by simp
    with Cons.IH[OF excl(5)] excl(1,2) show ?thesis unfolding m
      by (auto simp: update_conv')
  next
    case keep
    from Cons.IH[OF keep(4)] keep(1,2) show ?thesis unfolding m
      by (auto simp: update_conv')
  qed
qed

lemma update_incorrect_max_entries:
  "update_incorrect ic conf marks c = Inr c' \<Longrightarrow>
   set (max_count c') \<subseteq> set (max_count c) \<union>
     {(x, dict_get conf x 0) | x i. (i, x, incorrect) \<in> set marks \<and> int i \<noteq> ic}"
proof (induction marks arbitrary: c)
  case Nil
  then show ?case by simp
next
  case (Cons m marks)
  obtain i y f where m: "m = (i, y, f)" by (cases m) auto
  let ?T = "\<lambda>ms. {(x, dict_get conf x 0) | x i. (i, x, incorrect) \<in> set ms \<and> int i \<noteq> ic}"
  have mono: "?T marks \<subseteq> ?T (m # marks)" by auto
  let ?c1 = "c\<lparr>max_count := AList.update y (dict_get conf y 0) (max_count c)\<rparr>"
  have new: "int i \<noteq> ic \<Longrightarrow> f = incorrect \<Longrightarrow> set (max_count ?c1) \<subseteq> set (max_count c) \<union> ?T (m # marks)"
    using set_alist_update[of y "dict_get conf y 0" "max_count c"] unfolding m by auto
  from Cons.prems[unfolded m] show ?case
  proof (cases rule: update_incorrect_ConsE)
    case skip
    have "set (max_count c) \<union> ?T marks \<subseteq> set (max_count c) \<union> ?T (m # marks)"
      by (rule Un_mono[OF subset_refl mono])
    with Cons.IH[OF skip(2)] show ?thesis by (rule subset_trans)
  next
    case (excl c2)
    from exclude_all_result[OF excl(4)]
    have "max_count c2 = max_count ?c1" by simp
    with Cons.IH[OF excl(5)]
    have a: "set (max_count c') \<subseteq> set (max_count ?c1) \<union> ?T marks" by simp
    have "set (max_count ?c1) \<union> ?T marks \<subseteq> set (max_count c) \<union> ?T (m # marks)"
      using new[OF excl(1,2)] mono by (simp add: le_supI2)
    with a show ?thesis by (rule subset_trans)
  next
    case keep
    have "set (max_count ?c1) \<union> ?T marks \<subseteq> set (max_count c) \<union> ?T (m # marks)"
      using new[OF keep(1,2)] mono by (simp add: le_supI2)
    with Cons.IH[OF keep(4)] show ?thesis by (rule subset_trans)
  qed
qed

lemma update_incorrect_excludes:
  "update_incorrect ic conf marks c = Inr c' \<Longrightarrow>
   (i, x, incorrect) \<in> set marks \<Longrightarrow> int i \<noteq> ic \<Longrightarrow> dict_get conf x 0 = 0 \<Longrightarrow>
   j < 5 \<Longrightarrow> int j \<noteq> ic \<Longrightarrow> j < length (excluded_pos c') \<and> x \<in> excluded_pos c' ! j"
proof (induction marks arbitrary: c)
  case Nil
  then show ?case by simp
next
  case (Cons m marks)
  obtain i0 y f where m: "m = (i0, y, f)" by (cases m) auto
  from Cons.prems(1)[unfolded m] show ?case
  proof (cases rule: update_incorrect_ConsE)
    case skip
    then have "(i, x, incorrect) \<in> set marks" using Cons.prems(2,3) unfolding m by auto
    from Cons.IH[OF skip(2) this Cons.prems(3-6)] show ?thesis .
  next
    case (excl c2)
    show ?thesis
    proof (cases "(i, x, incorrect) \<in> set marks")
      case True
      from Cons.IH[OF excl(5) True Cons.prems(3-6)] show ?thesis .
    next
      case False
      then have y: "y = x" using Cons.prems(2) unfolding m by auto
      from exclude_all_result[OF excl(4)] Cons.prems(5,6)
      have j: "j < length (excluded_pos c)" and l2: "length (excluded_pos c2) = length (excluded_pos c)"
        and ex: "\<forall>j < length (excluded_pos c). excluded_pos c2 ! j =
          (if j \<in> set [0..<5] \<and> int j \<noteq> ic then insert y (excluded_pos c ! j) else excluded_pos c ! j)"
        by auto
      have "x \<in> excluded_pos c2 ! j" using ex[rule_format, OF j] Cons.prems(5,6) y by simp
      moreover from update_incorrect_fields[OF excl(5)]
      have "length (excluded_pos c') = length (excluded_pos c2)"
        "excluded_pos c2 ! j \<subseteq> excluded_pos c' ! j" using j l2 by auto
      ultimately show ?thesis using j l2 by auto
    qed
  next
    case keep
    then have "(i, x, incorrect) \<in> set marks" using Cons.prems(2,4) unfolding m by auto
    from Cons.IH[OF keep(4) this Cons.prems(3-6)] show ?thesis .
  qed
qed

lemma update_incorrect_total:
  "5 \<le> length (excluded_pos c) \<Longrightarrow> \<exists>c'. update_incorrect ic conf marks c = Inr c'"
proof (induction marks arbitrary: c)
  case Nil
  then show ?case by simp
next
  case (Cons m marks)
  obtain i x f where m: "m = (i, x, f)" by (cases m) auto
  let ?c1 = "c\<lparr>max_count := AList.update x (dict_get conf x 0) (max_count c)\<rparr>"
  have "\<forall>j \<in> set [0..<5]. j < length (excluded_pos ?c1)" using Cons.prems by auto
  from exclude_all_total[OF this, of ic x]
  obtain c2 where c2: "exclude_all ic x [0..<5] ?c1 = Inr c2" by blast
  have l2: "5 \<le> length (excluded_pos c2)" using exclude_all_result[OF c2] Cons.prems by simp
  have a: "\<exists>c'. update_incorrect ic conf marks c = Inr c'" by (rule Cons.IH[OF Cons.prems])
  have b: "\<exists>c'. update_incorrect ic conf marks ?c1 = Inr c'"
    by (rule Cons.IH) (use Cons.prems in simp)
  have d: "\<exists>c'. update_incorrect ic conf marks c2 = Inr c'" by (rule Cons.IH[OF l2])
  show ?case unfolding m using a b d c2 by (auto simp: Let_def)
qed

lemma update_total:
  assumes "length (excluded_pos c) = 5" "length fbs \<le> 5"
  shows "\<exists>c'. update c w fbs ic = Inr c'"
proof -
  have "\<forall>(i, x, f) \<in> set (enum_zip (lower w) fbs). i < length (excluded_pos c)"
    using assms by (auto simp: in_enum_zip)
  from update_marks_total[OF this, of ic "[]"]
  obtain c1 conf where m: "update_marks ic (enum_zip (lower w) fbs) (c, []) = Inr (c1, conf)" by blast
  have "length (excluded_pos c1) = 5" using update_marks_fields[OF m] assms(1) by simp
  then have "5 \<le> length (excluded_pos (update_min conf c1))" by (simp add: update_min_fields)
  from update_incorrect_total[OF this, of ic conf "enum_zip (lower w) fbs"]
  show ?thesis using m by (simp add: update_def)
qed

lemma updateE:
  assumes "update c w fbs ic = Inr c'"
  obtains c1 conf where "update_marks ic (enum_zip (lower w) fbs) (c, []) = Inr (c1, conf)"
    "update_incorrect ic conf (enum_zip (lower w) fbs) (update_min conf c1) = Inr c'"
  using assms by (auto simp: update_def Let_def split: sum.splits prod.splits)

lemma confirmed_count_pos:
  "0 < confirmed_count ic marks l \<longleftrightarrow> (\<exists>i f. (i, l, f) \<in> set marks \<and> int i \<noteq> ic \<and> f \<noteq> incorrect)"
  by (auto simp: confirmed_count_def filter_empty_conv)

lemma update_marks_conf_entry:
  assumes "update_marks ic marks (c, []) = Inr (c1, conf)" "0 < confirmed_count ic marks l"
  shows "(l, confirmed_count ic marks l) \<in> set conf"
proof -
  have "l \<in> fst ` set conf"
    using update_marks_keys[OF assms(1)] assms(2) by (auto simp: confirmed_count_pos)
  then obtain n where n: "map_of conf l = Some n"
    by (metis map_of_eq_None_iff not_Some_eq)
  have "dict_get conf l 0 = confirmed_count ic marks l"
    using update_marks_confirmed[OF assms(1), of l] by (simp add: dict_get_def)
  then have "n = confirmed_count ic marks l" using n by (simp add: dict_get_def)
  then show ?thesis using n by (auto dest: map_of_SomeD)
qed

lemma update_marks_conf_get:
  assumes "update_marks ic marks (c, []) = Inr (c1, conf)"
  shows "dict_get conf l 0 = confirmed_count ic marks l"
  using update_marks_confirmed[OF assms, of l] by (simp add: dict_get_def)

text \<open>
  C3: when \<open>update(word, feedback, ignore_column)\<close> returns, every letter with an incorrect
  mark at a non-ignored position has \<open>max_count\<close> equal to its confirmed count of this guess
  (the correct and present marks at non-ignored positions); when that count is zero, so that
  \<open>max_count\<close> is 0, the letter is in the excluded set of every position \<open>0..4\<close> other than
  \<open>ignore_column\<close>; and every letter with a confirmed occurrence has a \<open>min_count\<close> entry of
  at least its confirmed count. (\<open>update_total\<close>: the call returns whenever the model has its
  five exclusion sets and the feedback has at most five tags.)
\<close>

theorem update_sets_max_excludes_min:
  assumes "update c w fbs ic = Inr c'"
  shows "(\<forall>i l. (i, l, incorrect) \<in> set (enum_zip (lower w) fbs) \<and> int i \<noteq> ic \<longrightarrow>
            map_of (max_count c') l = Some (confirmed_count ic (enum_zip (lower w) fbs) l) \<and>
            (confirmed_count ic (enum_zip (lower w) fbs) l = 0 \<longrightarrow>
               (\<forall>j < 5. int j \<noteq> ic \<longrightarrow> j < length (excluded_pos c') \<and> l \<in> excluded_pos c' ! j))) \<and>
         (\<forall>l. 0 < confirmed_count ic (enum_zip (lower w) fbs) l \<longrightarrow>
            (\<exists>n. map_of (min_count c') l = Some n \<and> confirmed_count ic (enum_zip (lower w) fbs) l \<le> n))"
proof -
  let ?marks = "enum_zip (lower w) fbs"
  from assms obtain c1 conf where m: "update_marks ic ?marks (c, []) = Inr (c1, conf)"
    and u: "update_incorrect ic conf ?marks (update_min conf c1) = Inr c'"
    by (rule updateE)
  have conf: "dict_get conf l 0 = confirmed_count ic ?marks l" for l
    by (rule update_marks_conf_get[OF m])
  have mx: "map_of (max_count c') l = Some (confirmed_count ic ?marks l)"
    if "(i, l, incorrect) \<in> set ?marks" "int i \<noteq> ic" for i l
    using update_incorrect_max[OF u, of l] that conf[of l] by auto
  have ex: "j < length (excluded_pos c') \<and> l \<in> excluded_pos c' ! j"
    if "(i, l, incorrect) \<in> set ?marks" "int i \<noteq> ic" "confirmed_count ic ?marks l = 0"
       "j < 5" "int j \<noteq> ic" for i l j
    using update_incorrect_excludes[OF u that(1,2) _ that(4,5)] conf[of l] that(3) by simp
  have mn: "\<exists>n. map_of (min_count c') l = Some n \<and> confirmed_count ic ?marks l \<le> n"
    if "0 < confirmed_count ic ?marks l" for l
  proof -
    have e: "(l, confirmed_count ic ?marks l) \<in> set conf"
      by (rule update_marks_conf_entry[OF m that])
    from update_min_confirmed[OF e, of c1]
    obtain n where n: "map_of (min_count (update_min conf c1)) l = Some n"
      and le: "confirmed_count ic ?marks l \<le> dict_get (min_count (update_min conf c1)) l 0"
      by auto
    have "min_count c' = min_count (update_min conf c1)"
      using update_incorrect_fields[OF u] by simp
    then show ?thesis using n le by (simp add: dict_get_def)
  qed
  show ?thesis using mx ex mn by blast
qed


theorem update_sets_max_excludes_min_witness:
  "\<exists>c'. update new_Constraints ''slate'' [incorrect, incorrect, correct, incorrect, correct] (- 1) = Inr c' \<and>
     map_of (max_count c') (CHR ''s'') = Some 0 \<and> CHR ''s'' \<in> excluded_pos c' ! 3 \<and>
     (\<exists>n. map_of (min_count c') (CHR ''a'') = Some n \<and> 1 \<le> n)"
proof -
  let ?fbs = "[incorrect, incorrect, correct, incorrect, correct]"
  let ?marks = "enum_zip (lower ''slate'') ?fbs"
  obtain c' where u: "update new_Constraints ''slate'' ?fbs (- 1) = Inr c'"
    using update_total[of new_Constraints ?fbs "''slate''" "- 1"] by (auto simp: new_Constraints_def)
  have m: "(0, CHR ''s'', incorrect) \<in> set ?marks" by code_simp
  have z: "confirmed_count (- 1) ?marks (CHR ''s'') = 0" by code_simp
  have p: "confirmed_count (- 1) ?marks (CHR ''a'') = 1" by code_simp
  from update_sets_max_excludes_min[OF u]
  have a: "\<forall>i l. (i, l, incorrect) \<in> set ?marks \<and> int i \<noteq> - 1 \<longrightarrow>
            map_of (max_count c') l = Some (confirmed_count (- 1) ?marks l) \<and>
            (confirmed_count (- 1) ?marks l = 0 \<longrightarrow>
               (\<forall>j < 5. int j \<noteq> - 1 \<longrightarrow> j < length (excluded_pos c') \<and> l \<in> excluded_pos c' ! j))"
    and b: "\<forall>l. 0 < confirmed_count (- 1) ?marks l \<longrightarrow>
            (\<exists>n. map_of (min_count c') l = Some n \<and> confirmed_count (- 1) ?marks l \<le> n)"
    by blast+
  have "map_of (max_count c') (CHR ''s'') = Some 0" "CHR ''s'' \<in> excluded_pos c' ! 3"
    using a[rule_format, of 0 "CHR ''s''"] m z by auto
  moreover have "\<exists>n. map_of (min_count c') (CHR ''a'') = Some n \<and> 1 \<le> n"
    using b[rule_format, of "CHR ''a''"] p by simp
  ultimately show ?thesis using u by blast
qed

lemma update_marks_correct_keep:
  "update_marks ic marks (c, conf) = Inr (c', conf') \<Longrightarrow>
   \<not> (\<exists>x. (p, x, correct) \<in> set marks \<and> int p \<noteq> ic) \<Longrightarrow>
   map_of (correct_pos c') p = map_of (correct_pos c) p"
proof (induction marks arbitrary: c conf)
  case Nil
  then show ?case by simp
next
  case (Cons m marks)
  obtain i x f where m: "m = (i, x, f)" by (cases m) auto
  have rest: "\<not> (\<exists>x. (p, x, correct) \<in> set marks \<and> int p \<noteq> ic)" using Cons.prems(2) by auto
  show ?case
  proof (cases "int i \<noteq> ic \<and> f = correct")
    case True
    then have ip: "i \<noteq> p" using Cons.prems(2) unfolding m by auto
    have "update_marks ic marks (c\<lparr>correct_pos := AList.update i x (correct_pos c)\<rparr>,
        AList.update x (dict_get conf x 0 + 1) conf) = Inr (c', conf')"
      using Cons.prems(1) True unfolding m by simp
    from Cons.IH[OF this rest] ip show ?thesis by (simp add: update_conv')
  next
    case False
    then obtain c1 conf1 where "update_marks ic marks (c1, conf1) = Inr (c', conf')"
      "correct_pos c1 = correct_pos c"
      using Cons.prems(1) unfolding m by (cases f) (auto split: if_splits)
    from Cons.IH[OF this(1) rest] this(2) show ?thesis by simp
  qed
qed

text \<open>
  C9: a call of \<open>update\<close> that returns only strengthens the model: no letter's \<open>min_count\<close>
  (read with default 0) decreases and no \<open>min_count\<close> key disappears; every position keeps
  its excluded letters; every pinned position of \<open>correct_pos\<close> stays pinned, and a position
  that gets no correct mark in this call keeps its letter (a position marked correct again is
  re-pinned to the marked letter, the key stays).
\<close>

theorem update_only_strengthens:
  assumes "update c w fbs ic = Inr c'"
  shows "(\<forall>l. dict_get (min_count c) l 0 \<le> dict_get (min_count c') l 0) \<and>
         (\<forall>l. map_of (min_count c) l \<noteq> None \<longrightarrow> map_of (min_count c') l \<noteq> None) \<and>
         length (excluded_pos c') = length (excluded_pos c) \<and>
         (\<forall>j < length (excluded_pos c). excluded_pos c ! j \<subseteq> excluded_pos c' ! j) \<and>
         fst ` set (correct_pos c) \<subseteq> fst ` set (correct_pos c') \<and>
         (\<forall>p. \<not> (\<exists>x. (p, x, correct) \<in> set (enum_zip (lower w) fbs) \<and> int p \<noteq> ic) \<longrightarrow>
              map_of (correct_pos c') p = map_of (correct_pos c) p)"
proof -
  let ?marks = "enum_zip (lower w) fbs"
  from assms obtain c1 conf where m: "update_marks ic ?marks (c, []) = Inr (c1, conf)"
    and u: "update_incorrect ic conf ?marks (update_min conf c1) = Inr c'"
    by (rule updateE)
  note mf = update_marks_fields[OF m]
  note uf = update_incorrect_fields[OF u]
  note nf = update_min_fields[of conf c1]
  have mn: "min_count c' = min_count (update_min conf c1)" "min_count c1 = min_count c"
    using uf mf by simp_all
  have a: "dict_get (min_count c) l 0 \<le> dict_get (min_count c') l 0" for l
    using update_min_mono[of c1 l conf] mn by simp
  have b: "map_of (min_count c) l \<noteq> None \<longrightarrow> map_of (min_count c') l \<noteq> None" for l
    using update_min_mono[of c1 l conf] mn by simp
  have len: "length (excluded_pos c') = length (excluded_pos c)"
    using uf mf nf by simp
  have ex: "excluded_pos c ! j \<subseteq> excluded_pos c' ! j" if "j < length (excluded_pos c)" for j
  proof -
    have "excluded_pos c ! j \<subseteq> excluded_pos c1 ! j" using mf that by blast
    moreover have "excluded_pos c1 ! j \<subseteq> excluded_pos c' ! j"
      using uf nf mf that by auto
    ultimately show ?thesis by (rule subset_trans)
  qed
  have cp: "correct_pos c' = correct_pos c1" using uf nf by simp
  have k: "fst ` set (correct_pos c) \<subseteq> fst ` set (correct_pos c')"
    using mf cp by simp
  have keep: "map_of (correct_pos c') p = map_of (correct_pos c) p"
    if "\<not> (\<exists>x. (p, x, correct) \<in> set ?marks \<and> int p \<noteq> ic)" for p
    using update_marks_correct_keep[OF m that] cp by simp
  show ?thesis using a b len ex k keep by blast
qed

theorem update_only_strengthens_witness:
  "\<exists>c'. update \<lparr>correct_pos = [(2, CHR ''a'')], excluded_pos = [{CHR ''s''}, {}, {}, {}, {}],
                 min_count = [(CHR ''a'', 1)], max_count = [(CHR ''s'', 0)]\<rparr>
             ''crane'' [present, incorrect, correct, incorrect, correct] (- 1) = Inr c' \<and>
     1 \<le> dict_get (min_count c') (CHR ''a'') 0 \<and> map_of (min_count c') (CHR ''a'') \<noteq> None \<and>
     length (excluded_pos c') = 5 \<and> CHR ''s'' \<in> excluded_pos c' ! 0 \<and>
     2 \<in> fst ` set (correct_pos c') \<and> map_of (correct_pos c') 1 = None"
proof -
  let ?c = "\<lparr>correct_pos = [(2, CHR ''a'')], excluded_pos = [{CHR ''s''}, {}, {}, {}, {}],
             min_count = [(CHR ''a'', 1)], max_count = [(CHR ''s'', 0)]\<rparr>"
  let ?fbs = "[present, incorrect, correct, incorrect, correct]"
  obtain c' where u: "update ?c ''crane'' ?fbs (- 1) = Inr c'"
    using update_total[of ?c ?fbs "''crane''" "- 1"] by auto
  have m: "\<not> (\<exists>x. (1, x, correct) \<in> set (enum_zip (lower ''crane'') ?fbs) \<and> int 1 \<noteq> - 1)"
    by (simp add: in_enum_zip)
  from update_only_strengthens[OF u]
  have a: "\<forall>l. dict_get (min_count ?c) l 0 \<le> dict_get (min_count c') l 0"
    and b: "\<forall>l. map_of (min_count ?c) l \<noteq> None \<longrightarrow> map_of (min_count c') l \<noteq> None"
    and len: "length (excluded_pos c') = length (excluded_pos ?c)"
    and e: "\<forall>j < length (excluded_pos ?c). excluded_pos ?c ! j \<subseteq> excluded_pos c' ! j"
    and k: "fst ` set (correct_pos ?c) \<subseteq> fst ` set (correct_pos c')"
    and p: "\<forall>p. \<not> (\<exists>x. (p, x, correct) \<in> set (enum_zip (lower ''crane'') ?fbs) \<and> int p \<noteq> - 1) \<longrightarrow>
              map_of (correct_pos c') p = map_of (correct_pos ?c) p"
    by blast+
  have "1 \<le> dict_get (min_count c') (CHR ''a'') 0" using a[rule_format, of "CHR ''a''"]
    by (simp add: dict_get_def)
  moreover have "map_of (min_count c') (CHR ''a'') \<noteq> None" using b[rule_format, of "CHR ''a''"] by simp
  moreover have "length (excluded_pos c') = 5" using len by simp
  moreover have "CHR ''s'' \<in> excluded_pos c' ! 0" using e[rule_format, of 0] by auto
  moreover have "2 \<in> fst ` set (correct_pos c')" using k by auto
  moreover have "map_of (correct_pos c') 1 = None" using p[rule_format, OF m] by simp
  ultimately show ?thesis using u by blast
qed

subsection \<open>Constraints.matches and truthful histories\<close>

lemma in_set_enumerate:
  "(i, y) \<in> set (zip [0..<length zs] zs) \<longleftrightarrow> i < length zs \<and> zs ! i = y"
proof
  assume "(i, y) \<in> set (zip [0..<length zs] zs)"
  then obtain k where "k < length zs" "[0..<length zs] ! k = i" "zs ! k = y"
    by (auto simp: in_set_zip)
  then show "i < length zs \<and> zs ! i = y" by auto
next
  assume a: "i < length zs \<and> zs ! i = y"
  then have "zip [0..<length zs] zs ! i = (i, y)" by simp
  moreover have "i < length (zip [0..<length zs] zs)" using a by simp
  ultimately show "(i, y) \<in> set (zip [0..<length zs] zs)" by (metis nth_mem)
qed

lemma check_correct_True:
  "\<forall>(p, l) \<in> set al. p < length w \<and> w ! p = l \<Longrightarrow> check_correct al w = Inr True"
  by (induction al w rule: check_correct.induct) auto

lemma check_excluded_True:
  "\<forall>(p, ex) \<in> set al. p < length w \<and> w ! p \<notin> ex \<Longrightarrow> check_excluded al w = Inr True"
  by (induction al w rule: check_excluded.induct) auto

lemma letter_counts_fold:
  "dict_get (fold (\<lambda>c counts. AList.update c (dict_get counts c 0 + 1) counts) w acc) l 0
     = dict_get acc l 0 + count_list w l"
  by (induction w arbitrary: acc) (auto simp: dict_get_update)

lemma letter_counts_get: "dict_get (letter_counts w) l 0 = count_list w l"
proof -
  have "dict_get (letter_counts w) l 0 = dict_get [] l 0 + count_list w l"
    unfolding letter_counts_def by (rule letter_counts_fold)
  then show ?thesis by (simp add: dict_get_def)
qed

lemma sound_matches:
  assumes "sound (lower t0) c" "length t0 = 5"
  shows "matches c t0 = Inr True"
proof -
  let ?t = "lower t0"
  have lt: "length ?t = 5" using assms(2) by simp
  have s: "length (excluded_pos c) = 5"
    "\<forall>(p, l) \<in> set (correct_pos c). p < 5 \<and> ?t ! p = l"
    "\<forall>j < 5. ?t ! j \<notin> excluded_pos c ! j"
    "\<forall>(l, m) \<in> set (min_count c). m \<le> count_list ?t l"
    "\<forall>(l, m) \<in> set (max_count c). count_list ?t l \<le> m"
    using assms(1) by (simp_all add: sound_def)
  have c1: "check_correct (correct_pos c) ?t = Inr True"
    by (rule check_correct_True) (use s(2) lt in auto)
  have c2: "check_excluded (zip [0..<length (excluded_pos c)] (excluded_pos c)) ?t = Inr True"
  proof (rule check_excluded_True, clarify)
    fix p ex assume "(p, ex) \<in> set (zip [0..<length (excluded_pos c)] (excluded_pos c))"
    then have "p < length (excluded_pos c)" "excluded_pos c ! p = ex"
      by (simp_all add: in_set_enumerate)
    then show "p < length ?t \<and> ?t ! p \<notin> ex" using s(1,3) lt by auto
  qed
  have c3: "\<not> list_ex (\<lambda>(l, min_c). dict_get (letter_counts ?t) l 0 < min_c) (min_count c)"
    using s(4) by (auto simp: list_ex_iff letter_counts_get)
  have c4: "\<not> list_ex (\<lambda>(l, max_c). max_c < dict_get (letter_counts ?t) l 0) (max_count c)"
    using s(5) by (auto simp: list_ex_iff letter_counts_get)
  show ?thesis using c1 c2 c3 c4 by (simp add: matches_def Let_def)
qed

lemma sound_new: "sound t new_Constraints"
  by (simp add: sound_def new_Constraints_def)

lemma confirmed_count_credited:
  "confirmed_count (- 1) (enum_zip g fbs) l = credited g fbs l"
proof -
  let ?P = "\<lambda>(c, f). c = l \<and> f \<noteq> incorrect"
  let ?zs = "zip g fbs"
  let ?ez = "zip [0..<length ?zs] ?zs"
  have "(\<lambda>(i, c, f). int i \<noteq> - 1 \<and> c = l \<and> f \<noteq> incorrect) = ?P \<circ> snd"
    by (auto simp: fun_eq_iff)
  then have "confirmed_count (- 1) (enum_zip g fbs) l = length (filter (?P \<circ> snd) ?ez)"
    by (simp add: confirmed_count_def enum_zip_def)
  also have "\<dots> = length (map snd (filter (?P \<circ> snd) ?ez))" by simp
  also have "\<dots> = length (filter ?P (map snd ?ez))" by (simp only: filter_map)
  also have "map snd ?ez = ?zs" by simp
  finally show ?thesis by (simp add: credited_def)
qed

lemma update_marks_distinct:
  "update_marks ic marks (c, conf) = Inr (c', conf') \<Longrightarrow> distinct (map fst conf) \<Longrightarrow>
   distinct (map fst conf')"
proof (induction marks arbitrary: c conf)
  case Nil
  then show ?case by simp
next
  case (Cons m marks)
  obtain i x f where m: "m = (i, x, f)" by (cases m) auto
  show ?case
  proof (cases "int i = ic \<or> f = incorrect")
    case True
    then have "update_marks ic marks (c, conf) = Inr (c', conf')"
      using Cons.prems unfolding m by (cases f) (auto split: if_splits)
    from Cons.IH[OF this Cons.prems(2)] show ?thesis .
  next
    case False
    then obtain c1 where
      "update_marks ic marks (c1, AList.update x (dict_get conf x 0 + 1) conf) = Inr (c', conf')"
      using Cons.prems unfolding m by (cases f) (auto split: if_splits)
    from Cons.IH[OF this distinct_update[OF Cons.prems(2)]] show ?thesis .
  qed
qed


lemma update_truthful_sound:
  assumes snd: "sound (lower t0) c" and lt: "length t0 = 5" and lg: "length g0 = 5"
    and tf: "truthful_feedback g0 t0 = Inr fbs"
  shows "\<exists>c'. update c g0 fbs (- 1) = Inr c' \<and> sound (lower t0) c'"
proof -
  define t where "t = lower t0"
  define g where "g = lower g0"
  let ?marks = "enum_zip g fbs"
  from truthful_feedback_spec[OF lg lt] tf
  have f: "length fbs = 5"
    "\<forall>i < 5. fbs ! i = correct \<longleftrightarrow> g ! i = t ! i"
    "\<forall>l. credited g fbs l \<le> count_list t l"
    "\<forall>i < 5. fbs ! i = incorrect \<longrightarrow> credited g fbs (g ! i) = count_list t (g ! i)"
    unfolding g_def t_def by auto
  have s: "length (excluded_pos c) = 5"
    "\<forall>(p, l) \<in> set (correct_pos c). p < 5 \<and> t ! p = l"
    "\<forall>j < 5. t ! j \<notin> excluded_pos c ! j"
    "\<forall>(l, m) \<in> set (min_count c). m \<le> count_list t l"
    "\<forall>(l, m) \<in> set (max_count c). count_list t l \<le> m"
    using snd by (simp_all add: sound_def t_def)
  have lens: "length g = 5" "length t = 5" using lg lt by (simp_all add: g_def t_def)
  obtain c' where u: "update c g0 fbs (- 1) = Inr c'"
    using update_total[OF s(1), of fbs g0 "- 1"] f(1) by auto
  from u obtain c1 conf where m: "update_marks (- 1) ?marks (c, []) = Inr (c1, conf)"
    and ui: "update_incorrect (- 1) conf ?marks (update_min conf c1) = Inr c'"
    unfolding g_def by (rule updateE)
  note mf = update_marks_fields[OF m]
  note uf = update_incorrect_fields[OF ui]
  note nf = update_min_fields[of conf c1]
  have conf: "dict_get conf l 0 = credited g fbs l" for l
    using update_marks_conf_get[OF m, of l] by (simp add: confirmed_count_credited)
  have mark: "i < 5 \<and> x = g ! i \<and> fb = fbs ! i" if "(i, x, fb) \<in> set ?marks" for i x fb
    using that f(1) lens by (simp add: in_enum_zip)
  have len: "length (excluded_pos c') = 5" using uf nf mf s(1) by simp
  have cp: "p < 5 \<and> t ! p = l" if "(p, l) \<in> set (correct_pos c')" for p l
  proof -
    have "(p, l) \<in> set (correct_pos c1)" using that uf nf by simp
    then consider "(p, l) \<in> set (correct_pos c)" | "(p, l, correct) \<in> set ?marks"
      using mf by auto
    then show ?thesis
    proof cases
      case 1
      then show ?thesis using s(2) by auto
    next
      case 2
      from mark[OF this] f(2) show ?thesis by auto
    qed
  qed
  have ex: "t ! j \<notin> excluded_pos c' ! j" if j: "j < 5" for j
  proof
    assume a: "t ! j \<in> excluded_pos c' ! j"
    have j1: "j < length (excluded_pos c)" "j < length (excluded_pos (update_min conf c1))"
      using j s(1) mf nf by simp_all
    from uf j1(2) a have "t ! j \<in> excluded_pos (update_min conf c1) ! j \<or>
      (\<exists>i. (i, t ! j, incorrect) \<in> set ?marks \<and> dict_get conf (t ! j) 0 = 0)"
      by auto
    then show False
    proof
      assume "t ! j \<in> excluded_pos (update_min conf c1) ! j"
      then have "t ! j \<in> excluded_pos c1 ! j" using nf by simp
      with mf j1(1) have "t ! j \<in> excluded_pos c ! j \<or> (j, t ! j, present) \<in> set ?marks"
        by auto
      then show False
      proof
        assume "t ! j \<in> excluded_pos c ! j"
        then show False using s(3) j by simp
      next
        assume "(j, t ! j, present) \<in> set ?marks"
        from mark[OF this] have "t ! j = g ! j" "fbs ! j = present" by simp_all
        then show False using f(2) j by auto
      qed
    next
      assume "\<exists>i. (i, t ! j, incorrect) \<in> set ?marks \<and> dict_get conf (t ! j) 0 = 0"
      then obtain i where i: "(i, t ! j, incorrect) \<in> set ?marks" and z: "dict_get conf (t ! j) 0 = 0"
        by blast
      from mark[OF i] have i5: "i < 5" and gi: "g ! i = t ! j" and fi: "fbs ! i = incorrect" by simp_all
      have "credited g fbs (g ! i) = count_list t (g ! i)" using f(4) i5 fi by simp
      then have "count_list t (t ! j) = 0" using z conf[of "t ! j"] gi by simp
      moreover have "t ! j \<in> set t" using j lens(2) by simp
      ultimately show False by (simp add: count_list_0_iff)
    qed
  qed
  have distinct: "distinct (map fst conf)" using update_marks_distinct[OF m] by simp
  have confb: "\<forall>(l, n) \<in> set conf. n \<le> count_list t l"
  proof clarify
    fix l n assume "(l, n) \<in> set conf"
    then have "map_of conf l = Some n" using distinct by simp
    then have "n = dict_get conf l 0" by (simp add: dict_get_def)
    then show "n \<le> count_list t l" using conf[of l] f(3) by simp
  qed
  have mn: "\<forall>(l, m) \<in> set (min_count c'). m \<le> count_list t l"
  proof -
    have "\<forall>(l, m) \<in> set (min_count c1). m \<le> count_list t l" using s(4) mf by simp
    from update_min_bounded[OF this confb] uf show ?thesis by simp
  qed
  have mx: "count_list t l \<le> n" if "(l, n) \<in> set (max_count c')" for l n
  proof -
    from update_incorrect_max_entries[OF ui] that
    consider "(l, n) \<in> set (max_count (update_min conf c1))"
      | i where "n = dict_get conf l 0" "(i, l, incorrect) \<in> set ?marks"
      by auto
    then show ?thesis
    proof cases
      case 1
      then have "(l, n) \<in> set (max_count c)" using nf mf by simp
      then show ?thesis using s(5) by auto
    next
      case 2
      from mark[OF 2(2)] have "i < 5" "l = g ! i" "fbs ! i = incorrect" by simp_all
      then have "credited g fbs l = count_list t l" using f(4) by simp
      then show ?thesis using 2(1) conf[of l] by simp
    qed
  qed
  have "sound t c'"
    unfolding sound_def using len cp ex mn mx by auto
  then show ?thesis using u by (auto simp: t_def)
qed

lemma truthful_history_sound:
  assumes "length t0 = 5" "\<forall>g \<in> set gs. length g = 5" "sound (lower t0) c"
  shows "\<exists>h c'. truthful_history t0 gs = Inr h \<and> apply_history (- 1) h c = Inr c' \<and>
           sound (lower t0) c'"
  using assms(2,3)
proof (induction gs arbitrary: c)
  case Nil
  then show ?case by simp
next
  case (Cons g gs)
  have lg: "length g = 5" using Cons.prems(1) by simp
  from truthful_feedback_spec[OF lg assms(1)]
  obtain fbs where tf: "truthful_feedback g t0 = Inr fbs" by blast
  from update_truthful_sound[OF Cons.prems(2) assms(1) lg tf]
  obtain c1 where u: "update c g fbs (- 1) = Inr c1" and s1: "sound (lower t0) c1" by blast
  have "\<forall>g \<in> set gs. length g = 5" using Cons.prems(1) by simp
  from Cons.IH[OF this s1]
  obtain h c' where "truthful_history t0 gs = Inr h" "apply_history (- 1) h c1 = Inr c'"
    "sound (lower t0) c'" by blast
  then show ?case using tf u by simp
qed

text \<open>
  C2: for a five-letter target and any sequence of five-letter guesses, the model built from
  the empty one by applying \<open>update\<close> (no ignored column: \<open>ignore_column = -1\<close>) in order to
  the truthful (guess, feedback) pairs is built without error and \<open>matches\<close> returns True on
  the target.
\<close>

theorem truthful_history_matches_target:
  assumes "length t0 = 5" and "\<forall>g \<in> set gs. length g = 5"
  shows "\<exists>h c. truthful_history t0 gs = Inr h \<and> apply_history (- 1) h new_Constraints = Inr c \<and>
           matches c t0 = Inr True"
proof -
  from truthful_history_sound[OF assms sound_new]
  obtain h c where r: "truthful_history t0 gs = Inr h"
    "apply_history (- 1) h new_Constraints = Inr c" "sound (lower t0) c"
    by blast
  from sound_matches[OF r(3) assms(1)] r(1,2) show ?thesis by blast
qed

theorem truthful_history_matches_target_witness:
  "length ''level'' = 5 \<and> length ''ladle'' = 5 \<and> length ''salet'' = 5 \<and>
   (\<exists>h c. truthful_history ''level'' [''salet'', ''ladle''] = Inr h \<and>
          apply_history (- 1) h new_Constraints = Inr c \<and> matches c ''level'' = Inr True)"
  using truthful_history_matches_target[of "''level''" "[''salet'', ''ladle'']"] by simp

subsection \<open>Word cells and enter_word\<close>

lemma set_word_cells_length: "length (cells (set_word w s)) = length (cells w)"
proof -
  have "length (fold (\<lambda>(i, c) cs. cs[i := (cs ! i)\<lparr>letter := upper [c]\<rparr>]) xs cs0) = length cs0"
    for xs :: "(nat \<times> char) list" and cs0 :: "LetterCell list"
    by (induction xs arbitrary: cs0) auto
  then show ?thesis by (simp add: set_word_def)
qed

lemma set_word_word: "word (set_word w s) = lower s"
  by (simp add: set_word_def)

lemma set_cells_feedback_result:
  "i + length fbs \<le> length cs \<Longrightarrow>
   \<exists>cs'. set_cells_feedback cs i fbs = Inr cs' \<and> length cs' = length cs \<and>
     map feedback cs' = take i (map feedback cs) @ fbs @ drop (i + length fbs) (map feedback cs)"
proof (induction fbs arbitrary: cs i)
  case Nil
  then show ?case by simp
next
  case (Cons fb fbs)
  let ?cs1 = "cs[i := (cs ! i)\<lparr>feedback := fb\<rparr>]"
  have i: "i < length cs" using Cons.prems by simp
  have "Suc i + length fbs \<le> length ?cs1" using Cons.prems by simp
  from Cons.IH[OF this]
  obtain cs' where r: "set_cells_feedback ?cs1 (Suc i) fbs = Inr cs'" "length cs' = length ?cs1"
    "map feedback cs' = take (Suc i) (map feedback ?cs1) @ fbs @ drop (Suc i + length fbs) (map feedback ?cs1)"
    by blast
  have m: "map feedback ?cs1 = (map feedback cs)[i := fb]" by (simp add: map_update)
  have t: "take (Suc i) ((map feedback cs)[i := fb]) = take i (map feedback cs) @ [fb]"
    using i by (simp add: take_Suc_conv_app_nth)
  have d: "drop (Suc i + length fbs) ((map feedback cs)[i := fb]) = drop (Suc i + length fbs) (map feedback cs)"
    by simp
  show ?case using r i m t d by simp
qed

lemma set_feedback_result:
  assumes "length fbs = 5"
  shows "\<exists>w'. set_feedback (set_word new_Word g) fbs = Inr w' \<and> get_feedback w' = fbs \<and>
           word w' = lower g"
proof -
  let ?w = "set_word new_Word g"
  have l: "length (cells ?w) = 5" by (simp add: set_word_cells_length new_Word_def)
  then have "0 + length fbs \<le> length (cells ?w)" using assms by simp
  from set_cells_feedback_result[OF this]
  obtain cs' where r: "set_cells_feedback (cells ?w) 0 fbs = Inr cs'"
    "map feedback cs' = take 0 (map feedback (cells ?w)) @ fbs @ drop (0 + length fbs) (map feedback (cells ?w))"
    by blast
  have "map feedback cs' = fbs" using r(2) l assms by simp
  then show ?thesis using r(1) by (simp add: set_feedback_def get_feedback_def set_word_word)
qed

lemma lower_char_idem: "lower_char (lower_char c) = lower_char c"
proof (cases "is_upper c")
  case True
  then have "97 \<le> of_char c + (32::nat)" "of_char c + (32::nat) \<le> 122"
    by (simp_all add: is_upper_def)
  then have "\<not> is_upper (char_of (of_char c + (32::nat)))"
    by (simp add: is_upper_def)
  then show ?thesis using True by (simp add: lower_char_def)
next
  case False
  then show ?thesis by (simp add: lower_char_def)
qed

lemma lower_idem [simp]: "lower (lower s) = lower s"
  by (simp add: lower_def lower_char_idem)

lemma truthful_feedback_lower [simp]: "truthful_feedback (lower g) t = truthful_feedback g t"
  by (simp add: truthful_feedback_def)

lemma truthful_feedback_total:
  assumes "length g = 5" "length t = 5"
  obtains fbs where "truthful_feedback g t = Inr fbs" "length fbs = 5"
  using truthful_feedback_spec[OF assms] by blast

lemma calculate_feedback_result:
  assumes "length g = 5" "length (target_word s) = 5"
    and "\<forall>col. lie_column s = Some col \<longrightarrow> col < 5"
    and "truthful_feedback g (target_word s) = Inr t"
  shows "calculate_feedback s g =
     Inr (if lies_next s
          then (t[the (lie_column s) := flip (t ! the (lie_column s))], s\<lparr>lies_given := lies_given s + 1\<rparr>)
          else (t, s))"
proof -
  have lt: "length t = 5" using truthful_feedback_spec[OF assms(1,2)] assms(4) by auto
  show ?thesis
  proof (cases "lie_column s")
    case None
    then show ?thesis using assms(4)
      by (simp add: calculate_feedback_def apply_lie_def lies_next_def)
  next
    case (Some col)
    then have "col < 5" using assms(3) by simp
    then show ?thesis using assms(4) Some lt
      by (simp add: calculate_feedback_def apply_lie_def lies_next_def)
  qed
qed

text \<open>What one call of \<open>enter_word\<close> does, field by field.\<close>

lemma enter_word_result:
  assumes "length g = 5" "length (target_word s) = 5"
    and "\<forall>col. lie_column s = Some col \<longrightarrow> col < 5"
  shows "\<exists>t w s'. truthful_feedback g (target_word s) = Inr t \<and> length t = 5 \<and>
     enter_word s g = Inr s' \<and> words s' = words s @ [w] \<and> word w = lower g \<and>
     get_feedback w = (if lies_next s then t[the (lie_column s) := flip (t ! the (lie_column s))] else t) \<and>
     lies_given s' = (if lies_next s then lies_given s + 1 else lies_given s) \<and>
     status s' = (if lower g = target_word s \<or> num_guesses s \<le> int (length (words s)) + 1
                  then end_status else status s) \<and>
     success s' = (if lower g = target_word s then True
                   else if num_guesses s \<le> int (length (words s)) + 1 then False else success s) \<and>
     lie_column s' = lie_column s \<and> num_lies s' = num_lies s \<and> num_guesses s' = num_guesses s \<and>
     target_word s' = target_word s \<and> solver_constraints s' = solver_constraints s \<and>
     candidates s' = candidates s \<and> guess_num s' = guess_num s \<and> history s' = history s \<and>
     was_valid_guess s' = was_valid_guess s"
proof -
  have lg: "length (lower g) = 5" using assms(1) by simp
  obtain t where t: "truthful_feedback g (target_word s) = Inr t" "length t = 5"
    using truthful_feedback_total[OF assms(1,2)] by blast
  let ?fbs = "if lies_next s then t[the (lie_column s) := flip (t ! the (lie_column s))] else t"
  let ?s1 = "if lies_next s then s\<lparr>lies_given := lies_given s + 1\<rparr> else s"
  have cf: "calculate_feedback s (lower g) = Inr (?fbs, ?s1)"
    using calculate_feedback_result[OF lg assms(2,3), of t] t(1) by simp
  have "length ?fbs = 5" using t(2) by simp
  from set_feedback_result[OF this, of "lower g"]
  obtain w where w: "set_feedback (set_word new_Word (lower g)) ?fbs = Inr w"
    "get_feedback w = ?fbs" "word w = lower g" by auto
  obtain s' where s': "enter_word s g = Inr s'"
    using cf w(1) by (simp add: enter_word_def Let_def)
  have e: "enter_word s g =
    Inr (let s2 = ?s1\<lparr>words := words ?s1 @ [w], current_word_index := length (words ?s1 @ [w])\<rparr>
         in if lower g = target_word s2 then s2\<lparr>success := True, status := end_status\<rparr>
            else if num_guesses s2 \<le> int (length (words s2)) then s2\<lparr>success := False, status := end_status\<rparr>
            else s2)"
    using cf w(1) by (simp add: enter_word_def Let_def)
  show ?thesis
    using t w(2,3) e by (auto simp: Let_def)
qed


lemma flip_simps [simp]:
  "flip correct = incorrect" "flip present = incorrect" "flip incorrect = present"
  by (simp_all add: flip_def)

lemma enter_words_fibble:
  assumes "lie_column s = Some col" "col < 5" "0 < num_lies s" "length (target_word s) = 5"
    and "\<forall>g \<in> set gs. length g = 5"
  shows "\<exists>s' ws. enter_words s gs = Inr s' \<and> lie_column s' = Some col \<and>
     num_lies s' = num_lies s \<and> target_word s' = target_word s \<and>
     words s' = words s @ ws \<and> length ws = length gs \<and>
     lies_given s' = (if lies_given s < num_lies s
                      then min (num_lies s) (lies_given s + int (length gs)) else lies_given s) \<and>
     (\<forall>k < length gs. \<exists>t. truthful_feedback (gs ! k) (target_word s) = Inr t \<and>
        get_feedback (ws ! k) =
          (if lies_given s + int k < num_lies s then t[col := flip (t ! col)] else t))"
  using assms
proof (induction gs arbitrary: s)
  case Nil
  then show ?case by simp
next
  case (Cons g gs)
  have lg: "length g = 5" using Cons.prems(5) by simp
  have lc: "\<forall>c. lie_column s = Some c \<longrightarrow> c < 5" using Cons.prems(1,2) by simp
  have ln: "lies_next s \<longleftrightarrow> lies_given s < num_lies s"
    using Cons.prems(1,3) by (simp add: lies_next_def)
  from enter_word_result[OF lg Cons.prems(4) lc]
  obtain t w s1 where r: "truthful_feedback g (target_word s) = Inr t"
    "enter_word s g = Inr s1" "words s1 = words s @ [w]"
    "get_feedback w = (if lies_next s then t[the (lie_column s) := flip (t ! the (lie_column s))] else t)"
    "lies_given s1 = (if lies_next s then lies_given s + 1 else lies_given s)"
    "lie_column s1 = lie_column s" "num_lies s1 = num_lies s" "target_word s1 = target_word s"
    by blast
  have p1: "lie_column s1 = Some col" "0 < num_lies s1" "length (target_word s1) = 5"
    "\<forall>g \<in> set gs. length g = 5"
    using r(6,7,8) Cons.prems by simp_all
  from Cons.IH[OF p1(1) Cons.prems(2) p1(2,3,4)]
  obtain s' ws where ih: "enter_words s1 gs = Inr s'" "lie_column s' = Some col"
    "num_lies s' = num_lies s1" "target_word s' = target_word s1"
    "words s' = words s1 @ ws" "length ws = length gs"
    "lies_given s' = (if lies_given s1 < num_lies s1
                      then min (num_lies s1) (lies_given s1 + int (length gs)) else lies_given s1)"
    "\<forall>k < length gs. \<exists>t. truthful_feedback (gs ! k) (target_word s1) = Inr t \<and>
        get_feedback (ws ! k) =
          (if lies_given s1 + int k < num_lies s1 then t[col := flip (t ! col)] else t)"
    by blast
  have run: "enter_words s (g # gs) = Inr s'" using r(2) ih(1) by simp
  have w: "words s' = words s @ (w # ws)" using ih(5) r(3) by simp
  have lg': "lies_given s' = (if lies_given s < num_lies s
       then min (num_lies s) (lies_given s + int (length (g # gs))) else lies_given s)"
    using ih(7) r(5,7) ln by auto
  have fb: "\<exists>t. truthful_feedback ((g # gs) ! k) (target_word s) = Inr t \<and>
        get_feedback ((w # ws) ! k) =
          (if lies_given s + int k < num_lies s then t[col := flip (t ! col)] else t)"
    if "k < length (g # gs)" for k
  proof (cases k)
    case 0
    then show ?thesis using r(1,4) ln Cons.prems(1) by simp
  next
    case (Suc k')
    then have "k' < length gs" using that by simp
    from ih(8)[rule_format, OF this]
    obtain t' where t': "truthful_feedback (gs ! k') (target_word s1) = Inr t'"
      "get_feedback (ws ! k') =
          (if lies_given s1 + int k' < num_lies s1 then t'[col := flip (t' ! col)] else t')"
      by blast
    have "(lies_given s1 + int k' < num_lies s1) = (lies_given s + int k < num_lies s)"
      using r(5,7) ln Suc by auto
    then show ?thesis using t' r(8) Suc by simp
  qed
  show ?case
    using run ih(2,3,4,6) r(7,8) w lg' fb by auto
qed

text \<open>
  C4: in Fibble mode (\<open>num_lies > 0\<close> when \<open>reset\<close> picks the lie column \<open>col\<close>), for every
  sequence of five-letter guesses entered after the reset: the lie column is still \<open>col\<close> at the
  end; guess number \<open>k\<close> (from 0) is reported with exactly column \<open>col\<close> of its truthful
  feedback flipped while \<open>k < num_lies\<close>, and truthfully afterwards; each flip adds one to
  \<open>lies_given\<close>, which ends at \<open>min num_lies (number of guesses)\<close>; the flip sends correct to
  incorrect, present to incorrect and incorrect to present.
\<close>

theorem fibble_lie_column_flipped:
  assumes "0 < num_lies s0" and "col < 5" and "length tgt = 5" and "\<forall>g \<in> set gs. length g = 5"
  shows "\<exists>s'. enter_words (reset vocab tgt col s0) gs = Inr s' \<and>
     lie_column s' = Some col \<and> length (words s') = length gs \<and>
     lies_given s' = min (num_lies s0) (int (length gs)) \<and>
     (\<forall>k < length gs. \<exists>t. truthful_feedback (gs ! k) tgt = Inr t \<and>
        get_feedback (words s' ! k) =
          (if int k < num_lies s0 then t[col := flip (t ! col)] else t)) \<and>
     flip correct = incorrect \<and> flip present = incorrect \<and> flip incorrect = present"
proof -
  let ?s = "reset vocab tgt col s0"
  have p: "lie_column ?s = Some col" "0 < num_lies ?s" "length (target_word ?s) = 5"
    "lies_given ?s = 0" "words ?s = []" "num_lies ?s = num_lies s0" "target_word ?s = tgt"
    using assms(1,3) by (simp_all add: reset_def)
  from enter_words_fibble[OF p(1) assms(2) p(2,3) assms(4)]
  obtain s' ws where r: "enter_words ?s gs = Inr s'" "lie_column s' = Some col"
    "words s' = words ?s @ ws" "length ws = length gs"
    "lies_given s' = (if lies_given ?s < num_lies ?s
                      then min (num_lies ?s) (lies_given ?s + int (length gs)) else lies_given ?s)"
    "\<forall>k < length gs. \<exists>t. truthful_feedback (gs ! k) (target_word ?s) = Inr t \<and>
        get_feedback (ws ! k) =
          (if lies_given ?s + int k < num_lies ?s then t[col := flip (t ! col)] else t)"
    by blast
  have w: "words s' = ws" using r(3) p(5) by simp
  have l: "lies_given s' = min (num_lies s0) (int (length gs))"
    using r(5) p(2,4,6) by simp
  have f: "\<forall>k < length gs. \<exists>t. truthful_feedback (gs ! k) tgt = Inr t \<and>
        get_feedback (words s' ! k) =
          (if int k < num_lies s0 then t[col := flip (t ! col)] else t)"
    using r(6) p(4,6,7) w by simp
  show ?thesis using r(1,2,4) w l f by simp
qed


theorem fibble_lie_column_flipped_witness:
  "0 < num_lies ((init [''crane''] ''crane'' 0)\<lparr>num_lies := 1\<rparr>) \<and> (0::nat) < 5 \<and>
   length ''crane'' = 5 \<and> length ''crate'' = 5 \<and>
   (\<exists>s'. enter_words (reset [''crane''] ''crane'' 0 ((init [''crane''] ''crane'' 0)\<lparr>num_lies := 1\<rparr>))
            [''crate'', ''crane''] = Inr s' \<and>
      lie_column s' = Some 0 \<and> lies_given s' = 1 \<and>
      get_feedback (words s' ! 0) = [incorrect, correct, correct, incorrect, correct] \<and>
      get_feedback (words s' ! 1) = [correct, correct, correct, correct, correct])"
proof -
  let ?s0 = "(init [''crane''] ''crane'' 0)\<lparr>num_lies := 1\<rparr>"
  let ?gs = "[''crate'', ''crane'']"
  have n: "0 < num_lies ?s0" "num_lies ?s0 = 1" by simp_all
  have t0: "truthful_feedback ''crate'' ''crane'' = Inr [correct, correct, correct, incorrect, correct]"
    by code_simp
  have t1: "truthful_feedback ''crane'' ''crane'' = Inr [correct, correct, correct, correct, correct]"
    by code_simp
  have g: "\<forall>g \<in> set ?gs. length g = 5" by simp
  from fibble_lie_column_flipped[OF n(1) _ _ g, of 0 "''crane''" "[''crane'']"]
  obtain s' where r: "enter_words (reset [''crane''] ''crane'' 0 ?s0) ?gs = Inr s'"
    "lie_column s' = Some 0" "lies_given s' = min (num_lies ?s0) (int (length ?gs))"
    "\<forall>k < length ?gs. \<exists>t. truthful_feedback (?gs ! k) ''crane'' = Inr t \<and>
        get_feedback (words s' ! k) = (if int k < num_lies ?s0 then t[0 := flip (t ! 0)] else t)"
    by auto
  have "get_feedback (words s' ! 0) = [incorrect, correct, correct, incorrect, correct]"
    using r(4)[rule_format, of 0] t0 by simp
  moreover have "get_feedback (words s' ! 1) = [correct, correct, correct, correct, correct]"
    using r(4)[rule_format, of 1] t1 by simp
  moreover have "lies_given s' = 1" using r(3) by simp
  ultimately show ?thesis using r(1,2) by simp
qed

lemma play_game:
  assumes "length (target_word s) = 5" "\<forall>c. lie_column s = Some c \<longrightarrow> c < 5"
    and "\<forall>g \<in> set gs. length g = 5"
    and "status s = playing" "int (length (words s)) < num_guesses s" "\<not> success s"
  shows "\<exists>s'. play s gs = Inr s' \<and> num_guesses s' = num_guesses s \<and> target_word s' = target_word s \<and>
     int (length (words s')) \<le> num_guesses s \<and>
     (status s' = end_status \<longrightarrow> words s' \<noteq> [] \<and>
        (word (last (words s')) = target_word s \<or> num_guesses s \<le> int (length (words s'))) \<and>
        (success s' \<longleftrightarrow> word (last (words s')) = target_word s)) \<and>
     (status s' = playing \<longrightarrow> \<not> success s' \<and> int (length (words s')) < num_guesses s \<and>
        (words s' = words s \<or> word (last (words s')) \<noteq> target_word s))"
  using assms
proof (induction gs arbitrary: s)
  case Nil
  then show ?case by simp
next
  case (Cons g gs)
  have lg: "length g = 5" using Cons.prems(3) by simp
  from enter_word_result[OF lg Cons.prems(1,2)]
  obtain w s1 where r: "enter_word s g = Inr s1" "words s1 = words s @ [w]" "word w = lower g"
    "status s1 = (if lower g = target_word s \<or> num_guesses s \<le> int (length (words s)) + 1
                  then end_status else status s)"
    "success s1 = (if lower g = target_word s then True
                   else if num_guesses s \<le> int (length (words s)) + 1 then False else success s)"
    "lie_column s1 = lie_column s" "num_guesses s1 = num_guesses s" "target_word s1 = target_word s"
    by blast
  show ?case
  proof (cases "status s1 = end_status")
    case True
    then have "play s (g # gs) = Inr s1"
      using Cons.prems(4) r(1) by (cases gs) simp_all
    moreover have "int (length (words s1)) \<le> num_guesses s"
      using r(2) Cons.prems(5) by simp
    moreover have "word (last (words s1)) = target_word s \<or> num_guesses s \<le> int (length (words s1))"
      using True r(2,3,4) Cons.prems(4) by (auto split: if_splits)
    moreover have "success s1 \<longleftrightarrow> word (last (words s1)) = target_word s"
      using True r(2,3,4,5) Cons.prems(4,6) by (auto split: if_splits)
    ultimately show ?thesis using True r(2,7,8) by simp
  next
    case False
    then have st: "status s1 = playing" by (cases "status s1") simp_all
    have ne: "lower g \<noteq> target_word s" "\<not> num_guesses s \<le> int (length (words s)) + 1"
      using False r(4) by (auto split: if_splits)
    have p: "length (target_word s1) = 5" "\<forall>c. lie_column s1 = Some c \<longrightarrow> c < 5"
      "\<forall>g \<in> set gs. length g = 5" "int (length (words s1)) < num_guesses s1" "\<not> success s1"
      using r(2,5,6,7,8) ne Cons.prems by simp_all
    from Cons.IH[OF p(1,2,3) st p(4,5)]
    obtain s' where ih: "play s1 gs = Inr s'" "num_guesses s' = num_guesses s1"
      "target_word s' = target_word s1" "int (length (words s')) \<le> num_guesses s1"
      "status s' = end_status \<longrightarrow> words s' \<noteq> [] \<and>
        (word (last (words s')) = target_word s1 \<or> num_guesses s1 \<le> int (length (words s'))) \<and>
        (success s' \<longleftrightarrow> word (last (words s')) = target_word s1)"
      "status s' = playing \<longrightarrow> \<not> success s' \<and> int (length (words s')) < num_guesses s1 \<and>
        (words s' = words s1 \<or> word (last (words s')) \<noteq> target_word s1)"
      by blast
    have run: "play s (g # gs) = Inr s'" using Cons.prems(4) r(1) ih(1) by simp
    have last1: "word (last (words s1)) \<noteq> target_word s" using r(2,3) ne(1) by simp
    show ?thesis
      using run ih(2-6) r(7,8) last1 by auto
  qed
qed


text \<open>
  C10, as stated, fails: \<open>enter_word\<close> does not look at the status, so a caller that goes on
  after the end gets more than \<open>num_guesses\<close> tries, and a miss entered after a win leaves
  \<open>success\<close> true (\<open>enter_word_after_end_counterexample\<close> below). The guard is the driver's
  (\<open>while game.status != Status.end\<close>). Amended: for every sequence of five-letter guesses
  entered after a reset by a caller that stops at status end, with \<open>num_guesses\<close> at least 1,
  the status is end exactly when the last entered guess equals the target or the number of
  entered guesses has reached \<open>num_guesses\<close>; \<open>success\<close> is true exactly when the last entered
  guess equals the target; and \<open>num_of_tries\<close> never exceeds \<open>num_guesses\<close>.
\<close>

theorem play_status_success_tries:
  assumes "1 \<le> num_guesses s0" and "length tgt = 5" and "col < 5"
    and "\<forall>g \<in> set gs. length g = 5"
  shows "\<exists>s'. play (reset vocab tgt col s0) gs = Inr s' \<and>
     int (num_of_tries s') \<le> num_guesses s0 \<and>
     (status s' = end_status \<longleftrightarrow>
        words s' \<noteq> [] \<and> (word (last (words s')) = tgt \<or> num_guesses s0 \<le> int (num_of_tries s'))) \<and>
     (success s' \<longleftrightarrow> words s' \<noteq> [] \<and> word (last (words s')) = tgt)"
proof -
  let ?s = "reset vocab tgt col s0"
  have p: "length (target_word ?s) = 5" "\<forall>c. lie_column ?s = Some c \<longrightarrow> c < 5"
    "status ?s = playing" "int (length (words ?s)) < num_guesses ?s" "\<not> success ?s"
    "words ?s = []" "num_guesses ?s = num_guesses s0" "target_word ?s = tgt"
    using assms(1,2,3) by (simp_all add: reset_def)
  from play_game[OF p(1,2) assms(4) p(3,4,5)]
  obtain s' where r: "play ?s gs = Inr s'"
    "int (length (words s')) \<le> num_guesses ?s"
    "status s' = end_status \<longrightarrow> words s' \<noteq> [] \<and>
        (word (last (words s')) = target_word ?s \<or> num_guesses ?s \<le> int (length (words s'))) \<and>
        (success s' \<longleftrightarrow> word (last (words s')) = target_word ?s)"
    "status s' = playing \<longrightarrow> \<not> success s' \<and> int (length (words s')) < num_guesses ?s \<and>
        (words s' = words ?s \<or> word (last (words s')) \<noteq> target_word ?s)"
    by blast
  have cases: "status s' = playing \<or> status s' = end_status" by (cases "status s'") simp_all
  have a: "int (num_of_tries s') \<le> num_guesses s0" using r(2) p(7) by (simp add: num_of_tries_def)
  have b: "status s' = end_status \<longleftrightarrow>
        words s' \<noteq> [] \<and> (word (last (words s')) = tgt \<or> num_guesses s0 \<le> int (num_of_tries s'))"
    using cases r(3,4) p(6,7,8) by (auto simp: num_of_tries_def)
  have c: "success s' \<longleftrightarrow> words s' \<noteq> [] \<and> word (last (words s')) = tgt"
    using cases r(3,4) p(6,7,8) by auto
  show ?thesis using r(1) a b c by blast
qed

theorem play_status_success_tries_witness:
  "1 \<le> num_guesses (init [''crane''] ''crane'' 0) \<and> length ''crane'' = 5 \<and> (0::nat) < 5 \<and>
   (\<exists>s'. play (reset [''crane''] ''crane'' 0 (init [''crane''] ''crane'' 0)) [''salet'', ''crane'', ''slate''] = Inr s' \<and>
      int (num_of_tries s') \<le> 6 \<and> success s')"
proof -
  let ?s0 = "init [''crane''] ''crane'' 0"
  let ?gs = "[''salet'', ''crane'', ''slate'']"
  have n: "1 \<le> num_guesses ?s0" "num_guesses ?s0 = 6" by (simp_all add: init_def reset_def)
  have g: "\<forall>g \<in> set ?gs. length g = 5" by simp
  from play_status_success_tries[OF n(1) _ _ g, of "''crane''" 0 "[''crane'']"]
  obtain s' where r: "play (reset [''crane''] ''crane'' 0 ?s0) ?gs = Inr s'"
    "int (num_of_tries s') \<le> num_guesses ?s0"
    "success s' \<longleftrightarrow> words s' \<noteq> [] \<and> word (last (words s')) = ''crane''"
    by auto
  have "words s' \<noteq> [] \<and> word (last (words s')) = ''crane''"
  proof -
    have "\<not> isl (play (reset [''crane''] ''crane'' 0 ?s0) ?gs) \<and>
      words (projr (play (reset [''crane''] ''crane'' 0 ?s0) ?gs)) \<noteq> [] \<and>
      word (last (words (projr (play (reset [''crane''] ''crane'' 0 ?s0) ?gs)))) = ''crane''"
      by code_simp
    then show ?thesis using r(1) by simp
  qed
  then have "success s'" using r(3) by simp
  then show ?thesis using r(1,2) n by auto
qed

theorem enter_word_after_end_counterexample:
  "\<not> isl (enter_words (init [''crane''] ''crane'' 0)
            [''salet'', ''slate'', ''trace'', ''crate'', ''slant'', ''reast'', ''tares'']) \<and>
   num_of_tries (projr (enter_words (init [''crane''] ''crane'' 0)
            [''salet'', ''slate'', ''trace'', ''crate'', ''slant'', ''reast'', ''tares''])) = 7 \<and>
   num_guesses (projr (enter_words (init [''crane''] ''crane'' 0)
            [''salet'', ''slate'', ''trace'', ''crate'', ''slant'', ''reast'', ''tares''])) = 6 \<and>
   \<not> isl (enter_words (init [''crane''] ''crane'' 0) [''crane'', ''slate'']) \<and>
   success (projr (enter_words (init [''crane''] ''crane'' 0) [''crane'', ''slate''])) \<and>
   word (last (words (projr (enter_words (init [''crane''] ''crane'' 0) [''crane'', ''slate''])))) = ''slate'' \<and>
   target_word (projr (enter_words (init [''crane''] ''crane'' 0) [''crane'', ''slate''])) = ''crane''"
  by code_simp

end
